theory Spec2Isabelle
  imports Main "HOL-Library.Sublist"
begin

section \<open>The Runner of consul-template (manager/runner.go)\<close>

subsection \<open>Quiescence timers\<close>

text \<open>
  Points in time (\<^verbatim>\<open>time.Time\<close>) and durations (\<^verbatim>\<open>time.Duration\<close>) are
  integers, in nanoseconds. The only thing the runner needs of a template is its
  \<^verbatim>\<open>ID()\<close>.
\<close>

datatype template = Template (ID: string)

text \<open>
  \<^verbatim>\<open>quiescence\<close>: the field \<open>timer\<close> is \<open>None\<close> for the nil pointer and otherwise
  holds the instant at which the \<^verbatim>\<open>time.Timer\<close> expires, as set by the last
  \<^verbatim>\<open>NewTimer\<close> or \<^verbatim>\<open>Reset\<close>. The channel \<^verbatim>\<open>ch\<close> is the runner's
  \<^verbatim>\<open>quiescenceCh\<close>.
\<close>

record quiescence =
  q_template :: template
  min_d :: int
  max_d :: int
  timer :: "int option"
  deadline :: int

definition newQuiescence :: "int \<Rightarrow> int \<Rightarrow> template \<Rightarrow> quiescence" where
  "newQuiescence mn mx t =
     \<lparr>q_template = t, min_d = mn, max_d = mx, timer = None, deadline = 0\<rparr>"

text \<open>
  \<^verbatim>\<open>tick\<close>, with the value of \<^verbatim>\<open>time.Now()\<close> as a parameter.
  \<^verbatim>\<open>now.Add(q.min).Before(q.deadline)\<close> is the strict comparison.
\<close>

definition tick :: "int \<Rightarrow> quiescence \<Rightarrow> quiescence" where
  "tick now q =
     (case timer q of
        None \<Rightarrow> q\<lparr>timer := Some (now + min_d q), deadline := now + max_d q\<rparr>
      | Some e \<Rightarrow>
          if now + min_d q < deadline q then q\<lparr>timer := Some (now + min_d q)\<rparr>
          else if deadline q - now > 0 then q\<lparr>timer := Some (now + (deadline q - now))\<rparr>
          else q)"

text \<open>A run of ticks at the given instants, first to last.\<close>

fun ticks :: "int list \<Rightarrow> quiescence \<Rightarrow> quiescence" where
  "ticks [] q = q"
| "ticks (t # ts) q = ticks ts (tick t q)"

text \<open>Every tick of the run arrives while the timer, if armed, has not expired yet.\<close>

fun ticks_pending :: "int list \<Rightarrow> quiescence \<Rightarrow> bool" where
  "ticks_pending [] q = True"
| "ticks_pending (t # ts) q =
     ((case timer q of None \<Rightarrow> True | Some e \<Rightarrow> t < e) \<and> ticks_pending ts (tick t q))"

subsection \<open>Data of the runner\<close>

text \<open>
  A \<^verbatim>\<open>dep.Dependency\<close> is an interface; the runner calls \<^verbatim>\<open>HashCode()\<close>,
  \<^verbatim>\<open>Display()\<close> and \<^verbatim>\<open>CanShare()\<close> on it. The data of a dependency
  (\<^verbatim>\<open>interface{}\<close>) is opaque.
\<close>

record dependency =
  HashCode :: string
  Display :: string
  CanShare :: bool

type_synonym data = string

type_synonym addr = nat

text \<open>
  Errors are values. \<open>FetchError s e\<close> is a \<^verbatim>\<open>*dep.FetchError\<close> whose
  \<^verbatim>\<open>ShouldExit()\<close> is \<open>s\<close> and whose \<^verbatim>\<open>OriginalError()\<close> is \<open>e\<close>;
  \<open>Wrap msg e\<close> is \<^verbatim>\<open>errors.Wrap(e, msg)\<close>; \<open>MultiError\<close> is the
  \<^verbatim>\<open>multierror.Error\<close> built at the end of \<^verbatim>\<open>Run\<close>.
\<close>

datatype error =
    Err string
  | ErrChildDied int
  | FetchError bool error
  | Wrap string error
  | MultiError "error list"

text \<open>The run-time faults of Go that the code of the runner can hit.\<close>

datatype panic =
    UnlockOfUnlockedRWMutex
  | CloseOfClosedChannel
  | IndexOutOfRange

record waitConfig =
  wait_Enabled :: bool
  wait_Min :: int
  wait_Max :: int

text \<open>
  \<^verbatim>\<open>config.TemplateConfig\<close>: \<open>Command\<close> is
  \<^verbatim>\<open>config.StringVal(c.Exec.Command)\<close>, the empty string for none.
\<close>

record templateConfig =
  Source :: string
  Destination :: string
  Backup :: bool
  Perms :: nat
  Command :: string
  Wait :: waitConfig

text \<open>The fields of \<^verbatim>\<open>config.Config\<close> that the runner reads.\<close>

record config =
  cfg_Templates :: "templateConfig list"
  cfg_ExecCommand :: string
  cfg_Wait :: waitConfig
  cfg_PidFile :: string
  cfg_DedupEnabled :: bool

record executeResult =
  Used :: "dependency list"
  Missing :: "dependency list"
  Output :: string

record renderInput =
  in_Backup :: bool
  Contents :: string
  Dry :: bool
  Path :: string
  in_Perms :: nat

record renderResult =
  WouldRender :: bool
  DidRender :: bool

record renderEvent =
  LastWouldRender :: int
  LastDidRender :: int

datatype child = Child (Args: "string list")

subsection \<open>The collaborators\<close>

text \<open>
  The template evaluator, the file sink, the child process and the de-duplication
  manager are outside the runner. Every call the runner makes to one of them is
  recorded, with its result, in the history \<open>calls\<close> of the runner; what a
  collaborator answers is a function of the history so far and of the arguments of the
  call, given by the environment \<open>env\<close>.
\<close>

datatype call =
    ExecuteCall template "error + executeResult"
  | UpdateDepsCall template "dependency list"
  | RenderCall template templateConfig renderInput "error + renderResult"
  | SpawnCall string "error + child"
  | ReloadCall child "error option"
  | DedupStartCall "error option"
  | DedupStopCall
  | WatcherStopCall
  | ChildStopCall child
  | StorePidCall string "error option"
  | DeletePidCall string

record env =
  NewTemplate :: "templateConfig \<Rightarrow> error + template"
  NewClientSet :: "error option"
  NewWatcher :: "error option"
  NewDedupManager :: "error option"
  MarshalIndent :: "error option"
  IsLeader :: "call list \<Rightarrow> template \<Rightarrow> bool"
  Execute :: "call list \<Rightarrow> template \<Rightarrow> (string \<rightharpoonup> data) \<Rightarrow> error + executeResult"
  Render :: "call list \<Rightarrow> renderInput \<Rightarrow> error + renderResult"
  Now :: "call list \<Rightarrow> int"
  Parse :: "call list \<Rightarrow> string \<Rightarrow> error + string list"
  ChildNew :: "call list \<Rightarrow> string \<Rightarrow> string list \<Rightarrow> error + child"
  ChildStart :: "call list \<Rightarrow> child \<Rightarrow> error option"
  ChildReload :: "call list \<Rightarrow> child \<Rightarrow> error option"
  DedupStart :: "call list \<Rightarrow> error option"
  WritePid :: "call list \<Rightarrow> string \<Rightarrow> error option"

subsection \<open>Memory: the render events and the maps that point to them\<close>

text \<open>
  \<^verbatim>\<open>renderEvents\<close> is a \<^verbatim>\<open>map[string]*RenderEvent\<close>: a reference to a map
  whose values are pointers. Both kinds of object live in an explicit store with
  allocation counters; a map object is an association list, looked up with
  \<^const>\<open>map_of\<close>.
\<close>

record memory =
  events :: "addr \<Rightarrow> renderEvent"
  next_event :: addr
  maps :: "addr \<Rightarrow> (string \<times> addr) list"
  next_map :: addr

definition new_map :: "memory \<Rightarrow> addr \<times> memory" where
  "new_map m = (next_map m, m\<lparr>maps := (maps m)(next_map m := []), next_map := next_map m + 1\<rparr>)"

definition new_event :: "memory \<Rightarrow> addr \<times> memory" where
  "new_event m =
     (next_event m,
      m\<lparr>events := (events m)(next_event m := \<lparr>LastWouldRender = 0, LastDidRender = 0\<rparr>),
        next_event := next_event m + 1\<rparr>)"

text \<open>\<^verbatim>\<open>m[k] = v\<close> on a map object: the entry is replaced, or added at the end.\<close>

fun assign :: "string \<Rightarrow> 'v \<Rightarrow> (string \<times> 'v) list \<Rightarrow> (string \<times> 'v) list" where
  "assign k v [] = [(k, v)]"
| "assign k v ((k', v') # kvs) = (if k' = k then (k, v) # kvs else (k', v') # assign k v kvs)"

definition map_store :: "addr \<Rightarrow> string \<Rightarrow> addr \<Rightarrow> memory \<Rightarrow> memory" where
  "map_store a k v m = m\<lparr>maps := (maps m)(a := assign k v (maps m a))\<rparr>"

definition map_delete :: "addr \<Rightarrow> string \<Rightarrow> memory \<Rightarrow> memory" where
  "map_delete a k m = m\<lparr>maps := (maps m)(a := filter (\<lambda>kv. fst kv \<noteq> k) (maps m a))\<rparr>"

text \<open>A buffered channel of \<^verbatim>\<open>struct{}\<close>: its capacity and the number of values in it.\<close>

record chan =
  cap :: nat
  buffered :: nat

text \<open>\<^verbatim>\<open>select { case ch <- struct{}{}: default: }\<close>\<close>

definition try_send :: "chan \<Rightarrow> chan" where
  "try_send c = (if buffered c < cap c then c\<lparr>buffered := buffered c + 1\<rparr> else c)"

subsection \<open>The runner\<close>

text \<open>
  \<open>ErrCh\<close> holds the errors sent on the channel, oldest first; \<open>DoneCh\<close> says whether
  the channel is closed; \<open>childLock\<close> says whether the \<^verbatim>\<open>sync.RWMutex\<close> is held
  for writing; \<open>dedup\<close> says whether the pointer is not nil; \<open>watcher\<close> is the set
  of hash codes the watcher is subscribed to and \<open>brain\<close> the data the brain holds
  by hash code.
\<close>

record runner =
  ErrCh :: "error list"
  DoneCh :: bool
  config :: config
  dry :: bool
  once :: bool
  ctemplatesMap :: "(string \<times> templateConfig list) list"
  templates :: "template list"
  renderEvents :: addr
  renderedCh :: chan
  dependencies :: "(string \<times> dependency) list"
  watcher :: "string set"
  brain :: "string \<rightharpoonup> data"
  child :: "child option"
  childLock :: bool
  quiescenceMap :: "string \<rightharpoonup> quiescence"
  dedup :: bool
  mem :: memory
  calls :: "call list"

text \<open>The outcome of a call that can hit a run-time fault.\<close>

datatype 'a result = Return 'a runner | Panic panic runner

text \<open>
  Modelled from the spec: the \<^verbatim>\<open>Brain\<close> of package \<^verbatim>\<open>template\<close> is a "mapping
  Dependency-key \<open>\<rightarrow>\<close> last value" with \<^verbatim>\<open>Remember(d, value)\<close> and
  \<^verbatim>\<open>Forget(d)\<close>.
\<close>

definition Remember :: "dependency \<Rightarrow> data \<Rightarrow> (string \<rightharpoonup> data) \<Rightarrow> (string \<rightharpoonup> data)" where
  "Remember d x b = b(HashCode d \<mapsto> x)"

definition Forget :: "dependency \<Rightarrow> (string \<rightharpoonup> data) \<Rightarrow> (string \<rightharpoonup> data)" where
  "Forget d b = b(HashCode d := None)"

text \<open>
  Modelled from the spec: the \<^verbatim>\<open>Watcher\<close> of package \<^verbatim>\<open>watch\<close> "subscribes to
  dependencies", with \<^verbatim>\<open>Add(d)\<close>, \<^verbatim>\<open>Remove(d)\<close> and \<^verbatim>\<open>Watching(d) -> bool\<close>.
\<close>

definition Watching :: "string set \<Rightarrow> dependency \<Rightarrow> bool" where
  "Watching w d = (HashCode d \<in> w)"

definition Add :: "dependency \<Rightarrow> string set \<Rightarrow> string set" where
  "Add d w = insert (HashCode d) w"

definition Remove :: "dependency \<Rightarrow> string set \<Rightarrow> string set" where
  "Remove d w = w - {HashCode d}"

definition templateConfigsFor :: "runner \<Rightarrow> template \<Rightarrow> templateConfig list" where
  "templateConfigsFor r tmpl =
     (case map_of (ctemplatesMap r) (ID tmpl) of None \<Rightarrow> [] | Some cs \<Rightarrow> cs)"

text \<open>\<^verbatim>\<open>r.renderEvents[id]\<close>: the pointer stored for a template ID, if any.\<close>

definition event_of :: "runner \<Rightarrow> string \<Rightarrow> addr option" where
  "event_of r k = map_of (maps (mem r) (renderEvents r)) k"

definition allTemplatesRendered :: "runner \<Rightarrow> bool" where
  "allTemplatesRendered r = list_all (\<lambda>tmpl. event_of r (ID tmpl) \<noteq> None) (templates r)"

text \<open>
  \<^verbatim>\<open>markRenderTime\<close>: the event of the template is created on first use and then
  written through its pointer.
\<close>

definition markRenderTime :: "env \<Rightarrow> string \<Rightarrow> bool \<Rightarrow> runner \<Rightarrow> runner" where
  "markRenderTime env tmplID didRender r =
     (let now = Now env (calls r);
          (event, m) =
            (case event_of r tmplID of
               Some a \<Rightarrow> (a, mem r)
             | None \<Rightarrow>
                 (let (a, m1) = new_event (mem r)
                  in (a, map_store (renderEvents r) tmplID a m1)));
          ev = events m event
      in r\<lparr>mem := m\<lparr>events := (events m)
             (event := (if didRender then ev\<lparr>LastDidRender := now\<rparr>
                        else ev\<lparr>LastWouldRender := now\<rparr>))\<rparr>\<rparr>)"

text \<open>
  \<^verbatim>\<open>RenderEvents\<close>: a new map object \<^verbatim>\<open>times\<close> receives every entry of
  \<^verbatim>\<open>r.renderEvents\<close>; the result is the address of the new map.
\<close>

definition RenderEvents :: "runner \<Rightarrow> addr \<times> runner" where
  "RenderEvents r =
     (let (times, m) = new_map (mem r)
      in (times,
          r\<lparr>mem := fold (\<lambda>(k, v) m'. map_store times k v m')
                      (maps (mem r) (renderEvents r)) m\<rparr>))"

definition Receive :: "dependency \<Rightarrow> data \<Rightarrow> runner \<Rightarrow> runner" where
  "Receive d x r =
     (if map_of (dependencies r) (HashCode d) \<noteq> None
      then r\<lparr>brain := Remember d x (brain r)\<rparr> else r)"

definition diffAndUpdateDeps :: "(string \<times> dependency) list \<Rightarrow> runner \<Rightarrow> runner" where
  "diffAndUpdateDeps depsMap r =
     (fold (\<lambda>(key, d) r'.
              if map_of depsMap key = None
              then r'\<lparr>watcher := Remove d (watcher r'), brain := Forget d (brain r')\<rparr>
              else r')
           (dependencies r) r)
     \<lparr>dependencies := depsMap\<rparr>"

fun commandExists :: "templateConfig \<Rightarrow> templateConfig list \<Rightarrow> bool" where
  "commandExists c [] = False"
| "commandExists c (t # ts) = (if Command c = Command t then True else commandExists c ts)"

text \<open>
  \<^verbatim>\<open>spawnChild\<close>: \<^verbatim>\<open>args[0]\<close> is a fault when the command parses to no word.
\<close>

definition spawnChild :: "env \<Rightarrow> call list \<Rightarrow> string \<Rightarrow> panic + (error + child)" where
  "spawnChild env h cmd =
     (case Parse env h cmd of
        Inl err \<Rightarrow> Inr (Inl (Wrap ''failed parsing command'' err))
      | Inr args \<Rightarrow>
          (case args of
             [] \<Rightarrow> Inl IndexOutOfRange
           | a # as \<Rightarrow>
               (case ChildNew env h a as of
                  Inl err \<Rightarrow> Inr (Inl (Wrap ''error creating child'' err))
                | Inr c \<Rightarrow>
                    (case ChildStart env h c of
                       Some err \<Rightarrow> Inr (Inl (Wrap ''error starting child'' err))
                     | None \<Rightarrow> Inr (Inr c)))))"

subsection \<open>The render pass\<close>

text \<open>The runner together with the local variables of \<^verbatim>\<open>Run\<close>.\<close>

record pass =
  rn :: runner
  wouldRenderAny :: bool
  renderedAny :: bool
  commands :: "templateConfig list"
  depsMap :: "(string \<times> dependency) list"

text \<open>
  The loop over \<^verbatim>\<open>used\<close>: a used dependency that the watcher does not watch
  counts as missing for a leader, and every used dependency enters \<^verbatim>\<open>depsMap\<close>
  under its hash code unless the key is there already.
\<close>

fun collect_used ::
  "bool \<Rightarrow> string set \<Rightarrow> dependency list \<Rightarrow>
   dependency list \<times> (string \<times> dependency) list \<Rightarrow>
   dependency list \<times> (string \<times> dependency) list" where
  "collect_used isLeader w [] acc = acc"
| "collect_used isLeader w (d # ds) (missing, dm) =
     collect_used isLeader w ds
       (if isLeader \<and> \<not> Watching w d then missing @ [d] else missing,
        if map_of dm (HashCode d) = None then dm @ [(HashCode d, d)] else dm)"

text \<open>
  The body of the loop over the template configurations of one template, from the
  result of \<^verbatim>\<open>Render\<close> on: the render events, the two flags and the commands.
\<close>

definition after_render :: "env \<Rightarrow> template \<Rightarrow> templateConfig \<Rightarrow> renderResult \<Rightarrow> pass \<Rightarrow> pass" where
  "after_render env tmpl templateConfig result p =
     (let p1 = (if WouldRender result
                then p\<lparr>rn := markRenderTime env (ID tmpl) False (rn p),
                       wouldRenderAny := True\<rparr>
                else p);
          p2 = (if DidRender result
                then (let p' = p1\<lparr>renderedAny := True,
                                 rn := markRenderTime env (ID tmpl) True (rn p1)\<rparr>
                      in if \<not> dry (rn p)
                         then (if Command templateConfig \<noteq> ''''
                                  \<and> \<not> commandExists templateConfig (commands p')
                               then p'\<lparr>commands := commands p' @ [templateConfig]\<rparr>
                               else p')
                         else p')
                else p1)
      in p2)"

text \<open>The loop over the template configurations of one template.\<close>

fun render_configs ::
  "env \<Rightarrow> template \<Rightarrow> string \<Rightarrow> templateConfig list \<Rightarrow> pass \<Rightarrow> error \<times> runner + pass" where
  "render_configs env tmpl out [] p = Inr p"
| "render_configs env tmpl out (templateConfig # rest) p =
     (let r = rn p;
          input = \<lparr>in_Backup = Backup templateConfig, Contents = out, Dry = dry r,
                   Path = Destination templateConfig, in_Perms = Perms templateConfig\<rparr>;
          res = Render env (calls r) input;
          r1 = r\<lparr>calls := calls r @ [RenderCall tmpl templateConfig input res]\<rparr>
      in case res of
           Inl err \<Rightarrow> Inl (Wrap (''error rendering '' @ ID tmpl) err, r1)
         | Inr result \<Rightarrow>
             render_configs env tmpl out rest
               (after_render env tmpl templateConfig result (p\<lparr>rn := r1\<rparr>)))"

text \<open>
  The watcher after the loop over the unwatched dependencies: one is added when this
  agent is the leader of the template or the dependency cannot be shared.
\<close>

definition subscribe :: "bool \<Rightarrow> dependency list \<Rightarrow> string set \<Rightarrow> string set" where
  "subscribe isLeader unwatched w =
     fold (\<lambda>d w'. if isLeader \<or> \<not> CanShare d then Add d w' else w') unwatched w"

text \<open>
  The body of the loop over the templates for a template that misses nothing: the
  update of the de-duplication manager, the quiescence timer, the rendering.
\<close>

definition render_template ::
  "env \<Rightarrow> template \<Rightarrow> bool \<Rightarrow> executeResult \<Rightarrow> pass \<Rightarrow> error \<times> runner + pass" where
  "render_template env tmpl isLeader result p =
     (let r = rn p;
          r2 = (if dedup r \<and> isLeader
                then r\<lparr>calls := calls r @ [UpdateDepsCall tmpl (Used result)]\<rparr>
                else r)
      in case quiescenceMap r2 (ID tmpl) of
           Some q \<Rightarrow>
             Inr (p\<lparr>rn := r2\<lparr>quiescenceMap :=
                    (quiescenceMap r2)(ID tmpl \<mapsto> tick (Now env (calls r2)) q)\<rparr>\<rparr>)
         | None \<Rightarrow>
             render_configs env tmpl (Output result) (templateConfigsFor r2 tmpl)
               (p\<lparr>rn := r2\<rparr>))"

text \<open>The body of the loop over the templates, for one template.\<close>

definition run_template :: "env \<Rightarrow> template \<Rightarrow> pass \<Rightarrow> error \<times> runner + pass" where
  "run_template env tmpl p =
     (let r = rn p;
          isLeader = (if dedup r then IsLeader env (calls r) tmpl else True)
      in if once r \<and> event_of r (ID tmpl) \<noteq> None then Inr p
         else
           (let res = Execute env (calls r) tmpl (brain r);
                r1 = r\<lparr>calls := calls r @ [ExecuteCall tmpl res]\<rparr>
            in case res of
                 Inl err \<Rightarrow> Inl (err, r1)
               | Inr result \<Rightarrow>
                   (let (missing, dm) =
                          collect_used isLeader (watcher r1) (Used result)
                            (Missing result, depsMap p);
                        p1 = p\<lparr>rn := r1, depsMap := dm\<rparr>;
                        unwatched = filter (\<lambda>d. \<not> Watching (watcher r1) d) missing
                    in if unwatched \<noteq> [] then
                         Inr (p1\<lparr>rn := r1\<lparr>watcher :=
                                subscribe isLeader unwatched (watcher r1)\<rparr>\<rparr>)
                       else if missing \<noteq> [] then Inr p1
                       else render_template env tmpl isLeader result p1)))"

fun run_templates :: "env \<Rightarrow> template list \<Rightarrow> pass \<Rightarrow> error \<times> runner + pass" where
  "run_templates env [] p = Inr p"
| "run_templates env (tmpl # rest) p =
     (case run_template env tmpl p of
        Inl stop \<Rightarrow> Inl stop
      | Inr p' \<Rightarrow> run_templates env rest p')"

text \<open>The commands of the pass, spawned one after the other.\<close>

fun exec_commands ::
  "env \<Rightarrow> templateConfig list \<Rightarrow> error list \<Rightarrow> runner \<Rightarrow> panic \<times> runner + error list \<times> runner" where
  "exec_commands env [] errs r = Inr (errs, r)"
| "exec_commands env (t # ts) errs r =
     (case spawnChild env (calls r) (Command t) of
        Inl pn \<Rightarrow> Inl (pn, r)
      | Inr res \<Rightarrow>
          exec_commands env ts
            (case res of Inl err \<Rightarrow> errs @ [err] | Inr c \<Rightarrow> errs)
            (r\<lparr>calls := calls r @ [SpawnCall (Command t) res]\<rparr>))"

text \<open>
  What \<^verbatim>\<open>Run\<close> does after the loop over the templates. The child lock is only read-locked
  and read-unlocked here, which leaves it as it was.
\<close>

definition finish :: "env \<Rightarrow> pass \<Rightarrow> error option result" where
  "finish env p =
     (let r1 = (if wouldRenderAny p \<or> renderedAny p
                then (rn p)\<lparr>renderedCh := try_send (renderedCh (rn p))\<rparr> else rn p);
          r2 = diffAndUpdateDeps (depsMap p) r1
      in case exec_commands env (commands p) [] r2 of
           Inl (pn, r3) \<Rightarrow> Panic pn r3
         | Inr (errs, r3) \<Rightarrow>
             (let (errs', r4) =
                    (if renderedAny p then
                       (case child r3 of
                          Some c \<Rightarrow>
                            (let e = ChildReload env (calls r3) c
                             in (case e of Some err \<Rightarrow> errs @ [err] | None \<Rightarrow> errs,
                                 r3\<lparr>calls := calls r3 @ [ReloadCall c e]\<rparr>))
                        | None \<Rightarrow> (errs, r3))
                     else (errs, r3))
              in Return (if errs' \<noteq> [] then Some (MultiError errs') else None) r4))"

definition start_pass :: "runner \<Rightarrow> pass" where
  "start_pass r =
     \<lparr>rn = r, wouldRenderAny = False, renderedAny = False, commands = [], depsMap = []\<rparr>"

definition Run :: "env \<Rightarrow> runner \<Rightarrow> error option result" where
  "Run env r =
     (case run_templates env (templates r) (start_pass r) of
        Inl (err, r') \<Rightarrow> Return (Some err) r'
      | Inr p \<Rightarrow> finish env p)"

subsection \<open>Stopping\<close>

text \<open>
  The three \<^verbatim>\<open>stop\<close> helpers test their pointer against nil; no code sets a pointer
  back to nil, and the watcher is never nil after \<^verbatim>\<open>init\<close>.
  \<^verbatim>\<open>deletePid\<close> returns an error that \<^verbatim>\<open>Stop\<close> only logs.
\<close>

definition stopDedup :: "runner \<Rightarrow> runner" where
  "stopDedup r = (if dedup r then r\<lparr>calls := calls r @ [DedupStopCall]\<rparr> else r)"

definition stopWatcher :: "runner \<Rightarrow> runner" where
  "stopWatcher r = r\<lparr>calls := calls r @ [WatcherStopCall]\<rparr>"

definition stopChild :: "runner \<Rightarrow> runner" where
  "stopChild r =
     (case child r of
        Some c \<Rightarrow> r\<lparr>calls := calls r @ [ChildStopCall c]\<rparr>
      | None \<Rightarrow> r)"

definition deletePid :: "runner \<Rightarrow> runner" where
  "deletePid r =
     (let path = cfg_PidFile (config r)
      in if path = '''' then r else r\<lparr>calls := calls r @ [DeletePidCall path]\<rparr>)"

text \<open>\<^verbatim>\<open>close(r.DoneCh)\<close> is a fault when the channel is closed already.\<close>

definition Stop :: "runner \<Rightarrow> unit result" where
  "Stop r =
     (let r1 = deletePid (stopChild (stopWatcher (stopDedup r)))
      in if DoneCh r1 then Panic CloseOfClosedChannel r1
         else Return () (r1\<lparr>DoneCh := True\<rparr>))"

subsection \<open>Creating a runner\<close>

definition empty_memory :: memory where
  "empty_memory =
     \<lparr>events = (\<lambda>a. \<lparr>LastWouldRender = 0, LastDidRender = 0\<rparr>), next_event = 0,
      maps = (\<lambda>a. []), next_map = 0\<rparr>"

text \<open>
  The loop of \<^verbatim>\<open>init\<close> over the template configurations: one template per ID, in
  the order of first appearance, and under each ID its configurations in the order
  given.
\<close>

fun init_templates ::
  "env \<Rightarrow> templateConfig list \<Rightarrow> template list \<Rightarrow> (string \<times> templateConfig list) list \<Rightarrow>
   error + template list \<times> (string \<times> templateConfig list) list" where
  "init_templates env [] tmpls cmap = Inr (tmpls, cmap)"
| "init_templates env (ctmpl # rest) tmpls cmap =
     (case NewTemplate env ctmpl of
        Inl err \<Rightarrow> Inl err
      | Inr tmpl \<Rightarrow>
          (let tmpls' = (if map_of cmap (ID tmpl) = None then tmpls @ [tmpl] else tmpls);
               cmap1 = (if map_of cmap (ID tmpl) = None then assign (ID tmpl) [] cmap else cmap);
               old = (case map_of cmap1 (ID tmpl) of None \<Rightarrow> [] | Some cs \<Rightarrow> cs)
           in init_templates env rest tmpls' (assign (ID tmpl) (old @ [ctmpl]) cmap1)))"

text \<open>
  \<^verbatim>\<open>NewRunner\<close> with its call of \<^verbatim>\<open>init\<close>. The configuration is taken as merged with
  the defaults; \<^verbatim>\<open>fmt.Errorf("runner: %s", err)\<close> is written as a wrapped error.
\<close>

definition init :: "env \<Rightarrow> config \<Rightarrow> bool \<Rightarrow> bool \<Rightarrow> error + runner" where
  "init env cfg dry' once' =
     (case MarshalIndent env of
        Some err \<Rightarrow> Inl err
      | None \<Rightarrow>
     (case NewClientSet env of
        Some err \<Rightarrow> Inl (Wrap ''runner'' (Wrap ''runner'' err))
      | None \<Rightarrow>
     (case NewWatcher env of
        Some err \<Rightarrow> Inl (Wrap ''runner'' err)
      | None \<Rightarrow>
     (case init_templates env (cfg_Templates cfg) [] [] of
        Inl err \<Rightarrow> Inl err
      | Inr (tmpls, cmap) \<Rightarrow>
          (let (a, m) = new_map empty_memory;
               r = \<lparr>ErrCh = [], DoneCh = False, config = cfg, dry = dry', once = once',
                    ctemplatesMap = cmap, templates = tmpls, renderEvents = a,
                    renderedCh = \<lparr>cap = 1, buffered = 0\<rparr>, dependencies = [],
                    watcher = {}, brain = Map.empty, child = None, childLock = False,
                    quiescenceMap = Map.empty, dedup = False, mem = m, calls = []\<rparr>
           in if cfg_DedupEnabled cfg then
                (if once' then Inr r
                 else (case NewDedupManager env of
                         Some err \<Rightarrow> Inl err
                       | None \<Rightarrow> Inr (r\<lparr>dedup := True\<rparr>)))
              else Inr r)))))"

definition NewRunner :: "env \<Rightarrow> config \<Rightarrow> bool \<Rightarrow> bool \<Rightarrow> error + runner" where
  "NewRunner env cfg dry' once' = init env cfg dry' once'"

subsection \<open>The main loop\<close>

text \<open>
  \<^verbatim>\<open>Start\<close> runs against a schedule: the list of what happens around the runner, in
  order. \<open>DataEv v vs\<close>: the watcher's data channel holds the views \<open>v # vs\<close>;
  \<open>DedupEv\<close>, \<open>WatcherErrEv\<close>, \<open>QuiescenceEv\<close> and \<open>ChildExitEv\<close>: a value arrives
  on that channel; \<open>StopEv\<close>: another goroutine calls \<^verbatim>\<open>Stop\<close>; \<open>DoneEv\<close>: the
  select takes the case of the done channel, which it can only when the channel is
  closed. A value for a channel that is nil, and \<open>DoneEv\<close> before the close, leave the
  runner waiting.
\<close>

datatype event =
    DataEv "dependency \<times> data" "(dependency \<times> data) list"
  | DedupEv
  | WatcherErrEv error
  | QuiescenceEv template
  | ChildExitEv int
  | StopEv
  | DoneEv

text \<open>How \<^verbatim>\<open>Start\<close> ends: it returns, the program faults, or it waits for ever.\<close>

datatype exit = Returns runner | Panics panic runner | Blocks runner

text \<open>
  From a place where the loop can wait: go on waiting (\<open>Stay\<close>), leave
  \<^verbatim>\<open>Start\<close> (\<open>Leave\<close>), or go on to the next render pass (\<open>Wake\<close>).
\<close>

datatype wake = Stay runner | Leave exit | Wake runner

definition push :: "error \<Rightarrow> runner \<Rightarrow> runner" where
  "push err r = r\<lparr>ErrCh := ErrCh r @ [err]\<rparr>"

text \<open>The loop \<^verbatim>\<open>NEXT_Q\<close> that installs the quiescence records.\<close>

definition enable_quiescence_for :: "template \<Rightarrow> runner \<Rightarrow> runner" where
  "enable_quiescence_for t r =
     (if quiescenceMap r (ID t) \<noteq> None then r
      else
        (case find (\<lambda>c. wait_Enabled (Wait c)) (templateConfigsFor r t) of
           Some c \<Rightarrow>
             r\<lparr>quiescenceMap := (quiescenceMap r)
                 (ID t \<mapsto> newQuiescence (wait_Min (Wait c)) (wait_Max (Wait c)) t)\<rparr>
         | None \<Rightarrow>
             if wait_Enabled (cfg_Wait (config r))
             then r\<lparr>quiescenceMap := (quiescenceMap r)
                     (ID t \<mapsto> newQuiescence (wait_Min (cfg_Wait (config r)))
                                (wait_Max (cfg_Wait (config r))) t)\<rparr>
             else r))"

definition enable_quiescence :: "runner \<Rightarrow> runner" where
  "enable_quiescence r = fold enable_quiescence_for (templates r) r"

text \<open>\<^verbatim>\<open>r.childLock.Unlock()\<close> is a fault when the lock is not held for writing.\<close>

definition Unlock :: "runner \<Rightarrow> panic + runner" where
  "Unlock r = (if childLock r then Inr (r\<lparr>childLock := False\<rparr>) else Inl UnlockOfUnlockedRWMutex)"

text \<open>
  The select of once mode that waits for the child: only the exit channel of the child
  (when it is not nil) and the done channel are listened to; after the done channel,
  \<^verbatim>\<open>Start\<close> calls \<^verbatim>\<open>Stop\<close> and returns.
\<close>

fun wait_child :: "bool \<Rightarrow> event list \<Rightarrow> runner \<Rightarrow> exit" where
  "wait_child childExitCh [] r = Blocks r"
| "wait_child childExitCh (ev # evs) r =
     (case ev of
        ChildExitEv c \<Rightarrow>
          if childExitCh then Returns (push (ErrChildDied c) r)
          else wait_child childExitCh evs r
      | StopEv \<Rightarrow>
          (case Stop r of
             Panic pn r' \<Rightarrow> Panics pn r'
           | Return u r' \<Rightarrow> wait_child childExitCh evs r')
      | DoneEv \<Rightarrow>
          if DoneCh r
          then (case Stop r of
                  Panic pn r' \<Rightarrow> Panics pn r'
                | Return u r' \<Rightarrow> Returns r')
          else wait_child childExitCh evs r
      | _ \<Rightarrow> wait_child childExitCh evs r)"

text \<open>The exit of once mode, when all templates are rendered.\<close>

definition once_exit :: "bool \<Rightarrow> event list \<Rightarrow> runner \<Rightarrow> wake" where
  "once_exit childExitCh evs r =
     (if once r then
        (case child r of
           Some c \<Rightarrow> Leave (wait_child childExitCh evs (stopWatcher (stopDedup r)))
         | None \<Rightarrow>
             (case Stop r of
                Panic pn r' \<Rightarrow> Leave (Panics pn r')
              | Return u r' \<Rightarrow> Leave (Returns r')))
      else Stay r)"

text \<open>
  The top of the loop body, down to the select: the quiescence records, then, when all
  templates are rendered, the child of the exec command and the exit of once mode.
  The second component of the result says whether \<^verbatim>\<open>childExitCh\<close> is not nil. The
  warning about the number of views only logs.
\<close>

definition loop_top :: "env \<Rightarrow> bool \<Rightarrow> event list \<Rightarrow> runner \<Rightarrow> wake \<times> bool" where
  "loop_top env childExitCh evs r0 =
     (let r = enable_quiescence r0
      in if allTemplatesRendered r then
           (if cfg_ExecCommand (config r) \<noteq> '''' then
              (case (case child r of
                       Some c \<Rightarrow> Inr r
                     | None \<Rightarrow>
                         (case spawnChild env (calls r) (cfg_ExecCommand (config r)) of
                            Inl pn \<Rightarrow> Inl (Panics pn r)
                          | Inr res \<Rightarrow>
                              (let r1 = r\<lparr>calls := calls r @
                                          [SpawnCall (cfg_ExecCommand (config r)) res]\<rparr>
                               in case res of
                                    Inl err \<Rightarrow>
                                      (case Unlock (push err r1) of
                                         Inl pn \<Rightarrow> Inl (Panics pn (push err r1))
                                       | Inr r2 \<Rightarrow> Inl (Returns r2))
                                  | Inr c \<Rightarrow> Inr (r1\<lparr>child := Some c\<rparr>)))) of
                 Inl x \<Rightarrow> (Leave x, childExitCh)
               | Inr r1 \<Rightarrow>
                   (case Unlock r1 of
                      Inl pn \<Rightarrow> (Leave (Panics pn r1), childExitCh)
                    | Inr r2 \<Rightarrow> (once_exit True evs r2, True)))
            else (once_exit childExitCh evs r, childExitCh))
         else (Stay r, childExitCh))"

text \<open>One case of the select of the main loop.\<close>

definition select_case :: "bool \<Rightarrow> event \<Rightarrow> runner \<Rightarrow> wake" where
  "select_case childExitCh ev r =
     (case ev of
        DataEv v vs \<Rightarrow> Wake (fold (\<lambda>(d, x) r'. Receive d x r') (v # vs) r)
      | DedupEv \<Rightarrow> if dedup r then Wake r else Stay r
      | WatcherErrEv err \<Rightarrow>
          (case err of
             FetchError shouldExit originalError \<Rightarrow>
               if shouldExit then Leave (Returns (push originalError r))
               else if once r then Leave (Returns (push err r)) else Wake r
           | _ \<Rightarrow> if once r then Leave (Returns (push err r)) else Wake r)
      | QuiescenceEv tmpl \<Rightarrow> Wake (r\<lparr>quiescenceMap := (quiescenceMap r)(ID tmpl := None)\<rparr>)
      | ChildExitEv c \<Rightarrow>
          if childExitCh then Leave (Returns (push (ErrChildDied c) r)) else Stay r
      | StopEv \<Rightarrow>
          (case Stop r of
             Panic pn r' \<Rightarrow> Leave (Panics pn r')
           | Return u r' \<Rightarrow> Stay r')
      | DoneEv \<Rightarrow> if DoneCh r then Leave (Returns r) else Stay r)"

text \<open>
  The main loop from its select on: an event is taken, the render pass runs, and the
  top of the loop body leads to the next select.
\<close>

fun main_loop :: "env \<Rightarrow> bool \<Rightarrow> event list \<Rightarrow> runner \<Rightarrow> exit" where
  "main_loop env childExitCh [] r = Blocks r"
| "main_loop env childExitCh (ev # evs) r =
     (case select_case childExitCh ev r of
        Stay r' \<Rightarrow> main_loop env childExitCh evs r'
      | Leave x \<Rightarrow> x
      | Wake r1 \<Rightarrow>
          (case Run env r1 of
             Panic pn r2 \<Rightarrow> Panics pn r2
           | Return (Some err) r2 \<Rightarrow> Returns (push err r2)
           | Return None r2 \<Rightarrow>
               (case loop_top env childExitCh evs r2 of
                  (Leave x, c) \<Rightarrow> x
                | (Wake r3, c) \<Rightarrow> main_loop env c evs r3
                | (Stay r3, c) \<Rightarrow> main_loop env c evs r3)))"

definition storePid :: "env \<Rightarrow> runner \<Rightarrow> error option \<times> runner" where
  "storePid env r =
     (let path = cfg_PidFile (config r)
      in if path = '''' then (None, r)
         else (let e = WritePid env (calls r) path
               in (e, r\<lparr>calls := calls r @ [StorePidCall path e]\<rparr>)))"

definition Start :: "env \<Rightarrow> event list \<Rightarrow> runner \<Rightarrow> exit" where
  "Start env evs r =
     (case storePid env r of
        (Some err, r1) \<Rightarrow> Returns (push err r1)
      | (None, r1) \<Rightarrow>
          (case (if dedup r1
                 then (let e = DedupStart env (calls r1)
                       in (e, r1\<lparr>calls := calls r1 @ [DedupStartCall e]\<rparr>))
                 else (None, r1)) of
             (Some err, r2) \<Rightarrow> Returns (push err r2)
           | (None, r2) \<Rightarrow>
               (case Run env r2 of
                  Panic pn r3 \<Rightarrow> Panics pn r3
                | Return (Some err) r3 \<Rightarrow> Returns (push err r3)
                | Return None r3 \<Rightarrow>
                    (case loop_top env False evs r3 of
                       (Leave x, c) \<Rightarrow> x
                     | (Wake r4, c) \<Rightarrow> main_loop env c evs r4
                     | (Stay r4, c) \<Rightarrow> main_loop env c evs r4))))"

subsection \<open>An example: one template, one dependency\<close>

text \<open>
  The first scenario of the specification: a template that reads the key
  \<^verbatim>\<open>svc/web\<close> and is rendered to \<^verbatim>\<open>/tmp/out\<close>. The evaluator reports the
  dependency as used, and as missing as long as the brain has no data for it. The
  file sink writes every time, the clock counts the calls made so far, and a command
  line is split into one word.
\<close>

definition web :: dependency where
  "web = \<lparr>HashCode = ''svc/web'', Display = ''key(svc/web)'', CanShare = True\<rparr>"

definition example_env :: env where
  "example_env =
     \<lparr>NewTemplate = (\<lambda>c. Inr (Template (Source c))),
      NewClientSet = None, NewWatcher = None, NewDedupManager = None, MarshalIndent = None,
      IsLeader = (\<lambda>h t. False),
      Execute = (\<lambda>h t b.
        Inr \<lparr>Used = [web],
             Missing = (case b ''svc/web'' of None \<Rightarrow> [web] | Some x \<Rightarrow> []),
             Output = (case b ''svc/web'' of None \<Rightarrow> '''' | Some x \<Rightarrow> x)\<rparr>),
      Render = (\<lambda>h i. Inr \<lparr>WouldRender = True, DidRender = True\<rparr>),
      Now = (\<lambda>h. int (length h)),
      Parse = (\<lambda>h s. Inr [s]),
      ChildNew = (\<lambda>h a as. Inr (Child (a # as))),
      ChildStart = (\<lambda>h c. None),
      ChildReload = (\<lambda>h c. None),
      DedupStart = (\<lambda>h. None),
      WritePid = (\<lambda>h s. None)\<rparr>"

definition example_template :: templateConfig where
  "example_template =
     \<lparr>Source = ''in.tpl'', Destination = ''/tmp/out'', Backup = False, Perms = 420,
      Command = ''echo x'',
      Wait = \<lparr>wait_Enabled = False, wait_Min = 0, wait_Max = 0\<rparr>\<rparr>"

definition example_config :: config where
  "example_config =
     \<lparr>cfg_Templates = [example_template], cfg_ExecCommand = '''',
      cfg_Wait = \<lparr>wait_Enabled = False, wait_Min = 0, wait_Max = 0\<rparr>,
      cfg_PidFile = '''', cfg_DedupEnabled = False\<rparr>"

text \<open>The runner that \<^verbatim>\<open>NewRunner\<close> makes of the example, written out.\<close>

definition example_runner :: runner where
  "example_runner =
     \<lparr>ErrCh = [], DoneCh = False, config = example_config, dry = False, once = False,
      ctemplatesMap = [(''in.tpl'', [example_template])], templates = [Template ''in.tpl''],
      renderEvents = 0, renderedCh = \<lparr>cap = 1, buffered = 0\<rparr>, dependencies = [],
      watcher = {}, brain = Map.empty, child = None, childLock = False,
      quiescenceMap = Map.empty, dedup = False,
      mem = \<lparr>events = (\<lambda>a. \<lparr>LastWouldRender = 0, LastDidRender = 0\<rparr>), next_event = 0,
             maps = (\<lambda>a. []), next_map = 1\<rparr>,
      calls = []\<rparr>"

text \<open>
  The example after its first render pass, which subscribed the watcher, and after the
  watcher has delivered the data \<^verbatim>\<open>v1\<close> for the key.
\<close>

definition example_ready :: runner where
  "example_ready =
     example_runner
       \<lparr>calls := [ExecuteCall (Template ''in.tpl'')
                   (Inr \<lparr>Used = [web], Missing = [web], Output = ''''\<rparr>)],
        watcher := {''svc/web''}, dependencies := [(''svc/web'', web)],
        brain := [''svc/web'' \<mapsto> ''v1'']\<rparr>"

subsection \<open>An example: a dependency that is no longer used\<close>

text \<open>
  The third scenario of the specification: the template uses the keys \<^verbatim>\<open>key/a\<close>
  and \<^verbatim>\<open>key/b\<close> as long as it has no data for \<^verbatim>\<open>key/a\<close>, and only
  \<^verbatim>\<open>key/a\<close> afterwards. \<open>retire_runner\<close> is the runner after its first pass, which
  subscribed both keys, and after the watcher has delivered data for both.
\<close>

definition dep_a :: dependency where
  "dep_a = \<lparr>HashCode = ''key/a'', Display = ''key(key/a)'', CanShare = True\<rparr>"

definition dep_b :: dependency where
  "dep_b = \<lparr>HashCode = ''key/b'', Display = ''key(key/b)'', CanShare = True\<rparr>"

definition retire_env :: env where
  "retire_env =
     example_env
       \<lparr>Execute := (\<lambda>h t b.
          case b ''key/a'' of
            None \<Rightarrow>
              Inr \<lparr>Used = [dep_a, dep_b],
                   Missing = filter (\<lambda>d. b (HashCode d) = None) [dep_a, dep_b],
                   Output = ''''\<rparr>
          | Some x \<Rightarrow> Inr \<lparr>Used = [dep_a], Missing = [], Output = x\<rparr>)\<rparr>"

definition retire_runner :: runner where
  "retire_runner =
     example_runner
       \<lparr>calls := [ExecuteCall (Template ''in.tpl'')
                   (Inr \<lparr>Used = [dep_a, dep_b], Missing = [dep_a, dep_b], Output = ''''\<rparr>)],
        watcher := {''key/a'', ''key/b''},
        dependencies := [(''key/a'', dep_a), (''key/b'', dep_b)],
        brain := [''key/a'' \<mapsto> ''1'', ''key/b'' \<mapsto> ''2'']\<rparr>"

text \<open>
  \<open>retire_done\<close> is the runner after the render pass from \<open>retire_runner\<close>: the
  template is rendered, its command spawned, \<^verbatim>\<open>key/b\<close> retired.
\<close>

definition retire_done :: runner where
  "retire_done =
     retire_runner
       \<lparr>calls := calls retire_runner @
          [ExecuteCall (Template ''in.tpl'') (Inr \<lparr>Used = [dep_a], Missing = [], Output = ''1''\<rparr>),
           RenderCall (Template ''in.tpl'') example_template
             \<lparr>in_Backup = False, Contents = ''1'', Dry = False, Path = ''/tmp/out'',
              in_Perms = 420\<rparr>
             (Inr \<lparr>WouldRender = True, DidRender = True\<rparr>),
           SpawnCall ''echo x'' (Inr (Child [''echo x'']))],
        mem := \<lparr>events = (\<lambda>a. \<lparr>LastWouldRender = 0, LastDidRender = 0\<rparr>)
                  (0 := \<lparr>LastWouldRender = 3, LastDidRender = 3\<rparr>),
                next_event = 1, maps = (\<lambda>a. [])(0 := [(''in.tpl'', 0)]), next_map = 1\<rparr>,
        renderedCh := \<lparr>cap = 1, buffered = 1\<rparr>,
        watcher := {''key/a''},
        brain := [''key/a'' \<mapsto> ''1''],
        dependencies := [(''key/a'', dep_a)]\<rparr>"

subsection \<open>An example: the configurations of one template declared apart\<close>

text \<open>
  Three template configurations, each with a command: the first and the third render the
  same source \<^verbatim>\<open>a.tpl\<close> to two destinations, the second renders \<^verbatim>\<open>b.tpl\<close>. The
  templates use no dependency, so that the first pass renders all of them. The command
  of the third configuration fails to start.
\<close>

definition apart_x :: templateConfig where
  "apart_x =
     \<lparr>Source = ''a.tpl'', Destination = ''/tmp/x'', Backup = False, Perms = 420,
      Command = ''echo x'',
      Wait = \<lparr>wait_Enabled = False, wait_Min = 0, wait_Max = 0\<rparr>\<rparr>"

definition apart_y :: templateConfig where
  "apart_y =
     \<lparr>Source = ''b.tpl'', Destination = ''/tmp/y'', Backup = False, Perms = 420,
      Command = ''echo y'',
      Wait = \<lparr>wait_Enabled = False, wait_Min = 0, wait_Max = 0\<rparr>\<rparr>"

definition apart_z :: templateConfig where
  "apart_z =
     \<lparr>Source = ''a.tpl'', Destination = ''/tmp/z'', Backup = False, Perms = 420,
      Command = ''echo z'',
      Wait = \<lparr>wait_Enabled = False, wait_Min = 0, wait_Max = 0\<rparr>\<rparr>"

definition apart_config :: config where
  "apart_config =
     \<lparr>cfg_Templates = [apart_x, apart_y, apart_z], cfg_ExecCommand = '''',
      cfg_Wait = \<lparr>wait_Enabled = False, wait_Min = 0, wait_Max = 0\<rparr>,
      cfg_PidFile = '''', cfg_DedupEnabled = False\<rparr>"

definition apart_env :: env where
  "apart_env =
     example_env
       \<lparr>Execute := (\<lambda>h t b. Inr \<lparr>Used = [], Missing = [], Output = ID t\<rparr>),
        ChildStart := (\<lambda>h c. if Args c = [''echo z''] then Some (Err ''exit status 1'')
                               else None)\<rparr>"

text \<open>The runner that \<^verbatim>\<open>NewRunner\<close> makes of this configuration, written out.\<close>

definition apart_runner :: runner where
  "apart_runner =
     \<lparr>ErrCh = [], DoneCh = False, config = apart_config, dry = False, once = False,
      ctemplatesMap = [(''a.tpl'', [apart_x, apart_z]), (''b.tpl'', [apart_y])],
      templates = [Template ''a.tpl'', Template ''b.tpl''],
      renderEvents = 0, renderedCh = \<lparr>cap = 1, buffered = 0\<rparr>, dependencies = [],
      watcher = {}, brain = Map.empty, child = None, childLock = False,
      quiescenceMap = Map.empty, dedup = False,
      mem = \<lparr>events = (\<lambda>a. \<lparr>LastWouldRender = 0, LastDidRender = 0\<rparr>), next_event = 0,
             maps = (\<lambda>a. []), next_map = 1\<rparr>,
      calls = []\<rparr>"

subsection \<open>An example: a command of blanks\<close>

text \<open>
  Two template configurations; the command of the first is one blank, which is not the
  empty string and in which the parser of command lines finds no word.
\<close>

definition blank_x :: templateConfig where
  "blank_x =
     \<lparr>Source = ''a.tpl'', Destination = ''/tmp/x'', Backup = False, Perms = 420,
      Command = '' '',
      Wait = \<lparr>wait_Enabled = False, wait_Min = 0, wait_Max = 0\<rparr>\<rparr>"

definition blank_config :: config where
  "blank_config =
     \<lparr>cfg_Templates = [blank_x, apart_y], cfg_ExecCommand = '''',
      cfg_Wait = \<lparr>wait_Enabled = False, wait_Min = 0, wait_Max = 0\<rparr>,
      cfg_PidFile = '''', cfg_DedupEnabled = False\<rparr>"

definition blank_env :: env where
  "blank_env = apart_env\<lparr>Parse := (\<lambda>h s. Inr (if s = '' '' then [] else [s]))\<rparr>"

text \<open>The runner that \<^verbatim>\<open>NewRunner\<close> makes of this configuration, written out.\<close>

definition blank_runner :: runner where
  "blank_runner =
     \<lparr>ErrCh = [], DoneCh = False, config = blank_config, dry = False, once = False,
      ctemplatesMap = [(''a.tpl'', [blank_x]), (''b.tpl'', [apart_y])],
      templates = [Template ''a.tpl'', Template ''b.tpl''],
      renderEvents = 0, renderedCh = \<lparr>cap = 1, buffered = 0\<rparr>, dependencies = [],
      watcher = {}, brain = Map.empty, child = None, childLock = False,
      quiescenceMap = Map.empty, dedup = False,
      mem = \<lparr>events = (\<lambda>a. \<lparr>LastWouldRender = 0, LastDidRender = 0\<rparr>), next_event = 0,
             maps = (\<lambda>a. []), next_map = 1\<rparr>,
      calls = []\<rparr>"

subsection \<open>Reading the history of a pass\<close>

text \<open>The calls made between an earlier and a later state of the runner.\<close>

definition new_calls :: "runner \<Rightarrow> runner \<Rightarrow> call list" where
  "new_calls r r' = drop (length (calls r)) (calls r')"

text \<open>The configuration a call of the file sink was made for.\<close>

fun rendered_config :: "call \<Rightarrow> templateConfig list" where
  "rendered_config (RenderCall t tc i res) = [tc]"
| "rendered_config c = []"

text \<open>A call of the file sink that reported \<^verbatim>\<open>WouldRender\<close>, or \<^verbatim>\<open>DidRender\<close>.\<close>

fun would_render :: "call \<Rightarrow> bool" where
  "would_render (RenderCall t tc i (Inr res)) = WouldRender res"
| "would_render c = False"

fun did_render :: "call \<Rightarrow> bool" where
  "did_render (RenderCall t tc i (Inr res)) = DidRender res"
| "did_render c = False"

text \<open>
  The configuration of a call of the file sink that reported \<^verbatim>\<open>DidRender\<close>, when it
  has a command and the runner is not in dry mode.
\<close>

definition eligible :: "bool \<Rightarrow> call \<Rightarrow> templateConfig list" where
  "eligible dry' c =
     filter (\<lambda>tc. did_render c \<and> \<not> dry' \<and> Command tc \<noteq> '''') (rendered_config c)"

text \<open>The dependencies a successful evaluation reported as used.\<close>

fun used_of_call :: "call \<Rightarrow> dependency list" where
  "used_of_call (ExecuteCall t (Inr res)) = Used res"
| "used_of_call c = []"

text \<open>The commands spawned, with their results.\<close>

fun spawned :: "call \<Rightarrow> (string \<times> (error + child)) list" where
  "spawned (SpawnCall cmd res) = [(cmd, res)]"
| "spawned c = []"

text \<open>
  Following the words of the specification ("duplicate command strings within a single
  pass are collapsed to the first occurrence"): of the configurations with one command
  string, the first one stays, in its place.
\<close>

fun first_occurrences :: "templateConfig list \<Rightarrow> templateConfig list" where
  "first_occurrences [] = []"
| "first_occurrences (c # cs) =
     c # first_occurrences (filter (\<lambda>c'. Command c' \<noteq> Command c) cs)"

text \<open>The step by which \<^verbatim>\<open>Run\<close> adds a configuration to its commands.\<close>

definition add_command :: "templateConfig \<Rightarrow> templateConfig list \<Rightarrow> templateConfig list" where
  "add_command tc cs = (if commandExists tc cs then cs else cs @ [tc])"

subsection \<open>The order of a pass, read from the configuration\<close>

text \<open>
  The ID of the template that \<^verbatim>\<open>init\<close> makes of a template configuration, if it
  makes one.
\<close>

definition template_id :: "env \<Rightarrow> templateConfig \<Rightarrow> string option" where
  "template_id env c = (case NewTemplate env c of Inl err \<Rightarrow> None | Inr t \<Rightarrow> Some (ID t))"

definition add_id :: "'a \<Rightarrow> 'a list \<Rightarrow> 'a list" where
  "add_id x xs = (if x \<in> set xs then xs else xs @ [x])"

text \<open>The elements of a list in the order in which they first occur.\<close>

definition first_ids :: "'a list \<Rightarrow> 'a list" where
  "first_ids xs = fold add_id xs []"

text \<open>
  The order of a pass as the specification words it (section 5): the templates in the
  order in which they are declared, and for each template its configurations in the order
  in which they are declared. \<open>cs\<close> is the declared list of template configurations.
\<close>

definition declared_pass_order :: "env \<Rightarrow> templateConfig list \<Rightarrow> templateConfig list" where
  "declared_pass_order env cs =
     concat (map (\<lambda>i. filter (\<lambda>c. template_id env c = i) cs)
                 (first_ids (map (template_id env) cs)))"

subsection \<open>The states a runner can be in\<close>

fun result_state :: "'a result \<Rightarrow> runner" where
  "result_state (Return x r) = r"
| "result_state (Panic pn r) = r"

fun exit_state :: "exit \<Rightarrow> runner" where
  "exit_state (Returns r) = r"
| "exit_state (Panics pn r) = r"
| "exit_state (Blocks r) = r"

fun wake_state :: "wake \<Rightarrow> runner" where
  "wake_state (Stay r) = r"
| "wake_state (Leave x) = exit_state x"
| "wake_state (Wake r) = r"

text \<open>
  A runner is made by \<^verbatim>\<open>NewRunner\<close>; from then on its state changes by the steps of
  the main loop (the top of the loop body, a case of the select, a render pass), by
  \<^verbatim>\<open>Stop\<close> and \<^verbatim>\<open>RenderEvents\<close>, and when a consumer takes a notification from
  the channel of \<^verbatim>\<open>TemplateRenderedCh\<close>.
\<close>

inductive reachable :: "env \<Rightarrow> runner \<Rightarrow> bool" for env :: env where
  reach_new: "NewRunner env cfg dry' once' = Inr r \<Longrightarrow> reachable env r"
| reach_top: "reachable env r \<Longrightarrow> reachable env (wake_state (fst (loop_top env c evs r)))"
| reach_select: "reachable env r \<Longrightarrow> reachable env (wake_state (select_case c ev r))"
| reach_Run: "reachable env r \<Longrightarrow> Run env r = Return e r' \<Longrightarrow> reachable env r'"
| reach_Stop: "reachable env r \<Longrightarrow> Stop r = Return u r' \<Longrightarrow> reachable env r'"
| reach_RenderEvents: "reachable env r \<Longrightarrow> reachable env (snd (RenderEvents r))"
| reach_read:
    "reachable env r \<Longrightarrow> 0 < buffered (renderedCh r) \<Longrightarrow>
     reachable env (r\<lparr>renderedCh := (renderedCh r)\<lparr>buffered := buffered (renderedCh r) - 1\<rparr>\<rparr>)"

subsection \<open>Relations between states, for the proofs\<close>

text \<open>
  The step by which the loop over \<^verbatim>\<open>used\<close> adds a dependency to \<^verbatim>\<open>depsMap\<close>.
\<close>

definition add_dep :: "dependency \<Rightarrow> (string \<times> dependency) list \<Rightarrow> (string \<times> dependency) list" where
  "add_dep d dm = (if map_of dm (HashCode d) = None then dm @ [(HashCode d, d)] else dm)"

text \<open>
  \<open>frame r r'\<close>: the two states agree on every field but the history, the memory,
  the watcher and the quiescence records, which are what the loop over the templates
  writes, and in the memory on every map object but the map of render events.
\<close>

definition frame :: "runner \<Rightarrow> runner \<Rightarrow> bool" where
  "frame r r' \<longleftrightarrow>
     ErrCh r' = ErrCh r \<and> DoneCh r' = DoneCh r \<and> config r' = config r \<and> dry r' = dry r
   \<and> once r' = once r \<and> ctemplatesMap r' = ctemplatesMap r \<and> templates r' = templates r
   \<and> renderEvents r' = renderEvents r \<and> renderedCh r' = renderedCh r
   \<and> dependencies r' = dependencies r \<and> brain r' = brain r \<and> child r' = child r
   \<and> childLock r' = childLock r \<and> dedup r' = dedup r
   \<and> (\<forall>a. a \<noteq> renderEvents r \<longrightarrow> maps (mem r') a = maps (mem r) a)"

text \<open>
  \<open>delta p cs p'\<close>: from \<open>p\<close> to \<open>p'\<close> the runner made the calls \<open>cs\<close>, and the
  local variables of the pass changed as these calls say.
\<close>

definition delta :: "pass \<Rightarrow> call list \<Rightarrow> pass \<Rightarrow> bool" where
  "delta p cs p' \<longleftrightarrow>
     frame (rn p) (rn p')
   \<and> calls (rn p') = calls (rn p) @ cs
   \<and> commands p' = fold add_command (concat (map (eligible (dry (rn p))) cs)) (commands p)
   \<and> wouldRenderAny p' = (wouldRenderAny p \<or> list_ex would_render cs)
   \<and> renderedAny p' = (renderedAny p \<or> list_ex did_render cs)
   \<and> depsMap p' = fold add_dep (concat (map used_of_call cs)) (depsMap p)"

text \<open>
  \<open>keeps r r'\<close>: the two states agree on the tracked dependencies, the brain, the
  channel of render notifications, the map of render events, the configuration and the
  templates with their configurations.
\<close>

definition keeps :: "runner \<Rightarrow> runner \<Rightarrow> bool" where
  "keeps r r' \<longleftrightarrow>
     dependencies r' = dependencies r \<and> brain r' = brain r \<and> renderedCh r' = renderedCh r
   \<and> renderEvents r' = renderEvents r \<and> config r' = config r \<and> templates r' = templates r
   \<and> ctemplatesMap r' = ctemplatesMap r"

text \<open>
  \<open>grouped env pre tmpls cmap\<close>: what the loop of \<^verbatim>\<open>init\<close> has made of the template
  configurations \<open>pre\<close> it has gone through: the templates in the order in which their
  IDs first occur, and under each ID the configurations of this template, in order.
\<close>

definition grouped :: "env \<Rightarrow> templateConfig list \<Rightarrow> template list \<Rightarrow>
    (string \<times> templateConfig list) list \<Rightarrow> bool" where
  "grouped env pre tmpls cmap \<longleftrightarrow>
     map (\<lambda>t. Some (ID t)) tmpls = first_ids (map (template_id env) pre)
   \<and> (\<forall>i. map_of cmap i =
          (if i \<in> ID ` set tmpls then Some (filter (\<lambda>c. template_id env c = Some i) pre)
           else None))"

text \<open>The fields that say what a pass goes through.\<close>

definition settings :: "runner \<Rightarrow> config \<times> template list \<times> (string \<times> templateConfig list) list" where
  "settings r = (config r, templates r, ctemplatesMap r)"

text \<open>
  What holds of every state a runner can be in: the tracked dependencies are filed
  under their hash codes, the brain holds data for tracked dependencies only, and the
  channel of render notifications has capacity one and is not over-full.
\<close>

definition invariant :: "runner \<Rightarrow> bool" where
  "invariant r \<longleftrightarrow>
     list_all (\<lambda>(k, d). k = HashCode d) (dependencies r)
   \<and> dom (brain r) \<subseteq> fst ` set (dependencies r)
   \<and> cap (renderedCh r) = 1 \<and> buffered (renderedCh r) \<le> 1"

text \<open>
  The hash codes of the tracked dependencies whose key is not in the new set: the ones
  \<^verbatim>\<open>diffAndUpdateDeps\<close> removes from the watcher and forgets from the brain.
\<close>

definition retired :: "(string \<times> dependency) list \<Rightarrow> (string \<times> dependency) list \<Rightarrow> string set" where
  "retired dm deps = HashCode ` snd ` {kd \<in> set deps. map_of dm (fst kd) = None}"

text \<open>The errors among the results of spawning commands, in order.\<close>

definition spawn_errors :: "(error + child) list \<Rightarrow> error list" where
  "spawn_errors results = concat (map (\<lambda>res. case res of Inl err \<Rightarrow> [err] | Inr c \<Rightarrow> []) results)"

section \<open>Properties\<close>

subsection \<open>What the loop over the templates leaves alone\<close>

lemma frame_refl [simp]: "frame r r"
  by (simp add: frame_def)

lemma frame_trans: "frame r r' \<Longrightarrow> frame r' r'' \<Longrightarrow> frame r r''"
  by (simp add: frame_def)

lemma frame_updates [simp]:
  "frame (r\<lparr>calls := cs\<rparr>) r' = frame r r'"
  "frame (r\<lparr>watcher := w\<rparr>) r' = frame r r'"
  "frame (r\<lparr>quiescenceMap := q\<rparr>) r' = frame r r'"
  "frame r (r'\<lparr>calls := cs\<rparr>) = frame r r'"
  "frame r (r'\<lparr>watcher := w\<rparr>) = frame r r'"
  "frame r (r'\<lparr>quiescenceMap := q\<rparr>) = frame r r'"
  by (simp_all add: frame_def)

lemma markRenderTime_maps_other:
  "a \<noteq> renderEvents r \<Longrightarrow> maps (mem (markRenderTime env k b r)) a = maps (mem r) a"
  by (simp add: markRenderTime_def Let_def new_event_def map_store_def event_of_def
      split: option.splits)

lemma markRenderTime_frame_self: "frame r (markRenderTime env k b r)"
  by (simp add: frame_def markRenderTime_maps_other)
    (simp add: markRenderTime_def Let_def split: prod.splits option.splits)

lemma markRenderTime_frame [simp]:
  "frame r (markRenderTime env k b r') = frame r r'"
  "frame (markRenderTime env k b r) r' = frame r r'"
proof -
  show "frame r (markRenderTime env k b r') = frame r r'"
    using markRenderTime_frame_self [of r' env k b] by (auto simp: frame_def)
  show "frame (markRenderTime env k b r) r' = frame r r'"
    using markRenderTime_frame_self [of r env k b] by (auto simp: frame_def)
qed

lemma markRenderTime_fields [simp]:
  "calls (markRenderTime env k b r) = calls r"
  "watcher (markRenderTime env k b r) = watcher r"
  "quiescenceMap (markRenderTime env k b r) = quiescenceMap r"
  by (simp_all add: markRenderTime_def Let_def split: prod.splits option.splits)

lemma after_render_fields [simp]:
  "frame r (rn (after_render env tmpl tc res p)) = frame r (rn p)"
  "frame (rn (after_render env tmpl tc res p)) r' = frame (rn p) r'"
  "calls (rn (after_render env tmpl tc res p)) = calls (rn p)"
  "watcher (rn (after_render env tmpl tc res p)) = watcher (rn p)"
  "quiescenceMap (rn (after_render env tmpl tc res p)) = quiescenceMap (rn p)"
  "depsMap (after_render env tmpl tc res p) = depsMap p"
  by (simp_all add: after_render_def Let_def)

lemma after_render_commands:
  "commands (after_render env tmpl tc res p) =
     (if DidRender res \<and> \<not> dry (rn p) \<and> Command tc \<noteq> '''' then add_command tc (commands p)
      else commands p)"
  by (simp add: after_render_def Let_def add_command_def)

lemma after_render_flags:
  "wouldRenderAny (after_render env tmpl tc res p) = (wouldRenderAny p \<or> WouldRender res)"
  "renderedAny (after_render env tmpl tc res p) = (renderedAny p \<or> DidRender res)"
  by (auto simp: after_render_def Let_def)

subsection \<open>The calls of a pass and its local variables\<close>

lemma delta_refl [simp]: "delta p [] p"
  by (simp add: delta_def)

lemma delta_trans:
  assumes "delta p cs p'" and "delta p' cs' p''"
  shows "delta p (cs @ cs') p''"
proof -
  have "dry (rn p') = dry (rn p)"
    using assms(1) by (simp add: delta_def frame_def)
  with assms show ?thesis
    by (auto simp: delta_def intro: frame_trans)
qed

lemma delta_render:
  "delta p [RenderCall tmpl tc input (Inr res)]
     (after_render env tmpl tc res
        (p\<lparr>rn := (rn p)\<lparr>calls := calls (rn p) @ [RenderCall tmpl tc input (Inr res)]\<rparr>\<rparr>))"
  by (simp add: delta_def after_render_commands after_render_flags eligible_def)

lemma render_configs_ConsE:
  assumes "render_configs env tmpl out (tc # cfgs) p = Inr p'"
  obtains result input where
    "input = \<lparr>in_Backup = Backup tc, Contents = out, Dry = dry (rn p),
              Path = Destination tc, in_Perms = Perms tc\<rparr>"
    "Render env (calls (rn p)) input = Inr result"
    "render_configs env tmpl out cfgs
       (after_render env tmpl tc result
          (p\<lparr>rn := (rn p)\<lparr>calls := calls (rn p) @ [RenderCall tmpl tc input (Inr result)]\<rparr>\<rparr>))
     = Inr p'"
  using assms by (simp add: Let_def split: sum.splits)

lemma render_configs_fields:
  "render_configs env tmpl out cfgs p = Inr p' \<Longrightarrow>
   watcher (rn p') = watcher (rn p) \<and> quiescenceMap (rn p') = quiescenceMap (rn p)"
proof (induction cfgs arbitrary: p)
  case Nil
  then show ?case by simp
next
  case (Cons tc cfgs)
  from Cons.prems show ?case
  proof (rule render_configs_ConsE)
    fix result input
    assume "render_configs env tmpl out cfgs
       (after_render env tmpl tc result
          (p\<lparr>rn := (rn p)\<lparr>calls := calls (rn p) @ [RenderCall tmpl tc input (Inr result)]\<rparr>\<rparr>))
     = Inr p'"
    from Cons.IH [OF this] show ?thesis by simp
  qed
qed

lemma render_configs_delta:
  "render_configs env tmpl out cfgs p = Inr p' \<Longrightarrow>
   \<exists>cs. delta p cs p' \<and> concat (map rendered_config cs) = cfgs
      \<and> concat (map used_of_call cs) = []"
proof (induction cfgs arbitrary: p)
  case Nil
  then have "delta p [] p'" by simp
  then show ?case by force
next
  case (Cons tc cfgs)
  from Cons.prems show ?case
  proof (rule render_configs_ConsE)
    fix result input
    let ?c = "RenderCall tmpl tc input (Inr result)"
    let ?p1 = "after_render env tmpl tc result
          (p\<lparr>rn := (rn p)\<lparr>calls := calls (rn p) @ [?c]\<rparr>\<rparr>)"
    assume "render_configs env tmpl out cfgs ?p1 = Inr p'"
    from Cons.IH [OF this] obtain cs where cs: "delta ?p1 cs p'"
      "concat (map rendered_config cs) = cfgs" "concat (map used_of_call cs) = []"
      by blast
    have "delta p ([?c] @ cs) p'"
      using delta_render cs(1) by (rule delta_trans)
    moreover have "concat (map rendered_config ([?c] @ cs)) = tc # cfgs"
      using cs(2) by simp
    moreover have "concat (map used_of_call ([?c] @ cs)) = []"
      using cs(3) by simp
    ultimately show ?thesis by blast
  qed
qed

lemma collect_used_eq:
  "collect_used l w us (m, dm) = (m @ filter (\<lambda>d. l \<and> \<not> Watching w d) us, fold add_dep us dm)"
  by (induction us arbitrary: m dm) (simp_all add: add_dep_def)

lemma subscribe_eq:
  "subscribe l ds w = w \<union> HashCode ` {d \<in> set ds. l \<or> \<not> CanShare d}"
  unfolding subscribe_def by (induction ds arbitrary: w) (auto simp: Add_def)

lemma delta_call:
  assumes "eligible (dry (rn p)) c = []" "\<not> would_render c" "\<not> did_render c" "used_of_call c = []"
  shows "delta p [c] (p\<lparr>rn := (rn p)\<lparr>calls := calls (rn p) @ [c]\<rparr>\<rparr>)"
  using assms by (simp add: delta_def)

lemma delta_rn_update:
  "delta p cs p' \<Longrightarrow> delta p cs (p'\<lparr>rn := (rn p')\<lparr>watcher := w\<rparr>\<rparr>)"
  "delta p cs p' \<Longrightarrow> delta p cs (p'\<lparr>rn := (rn p')\<lparr>quiescenceMap := q\<rparr>\<rparr>)"
  by (simp_all add: delta_def)

lemma render_template_delta:
  assumes "render_template env tmpl l result p = Inr p'"
  shows "\<exists>cs. delta p cs p' \<and> concat (map used_of_call cs) = []
     \<and> (concat (map rendered_config cs) = []
        \<or> concat (map rendered_config cs) = templateConfigsFor (rn p) tmpl)"
proof -
  define u where "u = (if dedup (rn p) \<and> l then [UpdateDepsCall tmpl (Used result)] else [])"
  define r2 where "r2 = (rn p)\<lparr>calls := calls (rn p) @ u\<rparr>"
  have r2: "(if dedup (rn p) \<and> l
             then (rn p)\<lparr>calls := calls (rn p) @ [UpdateDepsCall tmpl (Used result)]\<rparr>
             else rn p) = r2"
    by (simp add: r2_def u_def)
  have d2: "delta p u (p\<lparr>rn := r2\<rparr>)"
    by (simp add: delta_def r2_def u_def eligible_def)
  have u: "concat (map used_of_call u) = []" "concat (map rendered_config u) = []"
    by (simp_all add: u_def)
  show ?thesis
  proof (cases "quiescenceMap r2 (ID tmpl)")
    case None
    with assms have "render_configs env tmpl (Output result) (templateConfigsFor r2 tmpl)
        (p\<lparr>rn := r2\<rparr>) = Inr p'"
      by (simp add: render_template_def r2)
    from render_configs_delta [OF this] obtain cs where cs: "delta (p\<lparr>rn := r2\<rparr>) cs p'"
      "concat (map rendered_config cs) = templateConfigsFor r2 tmpl"
      "concat (map used_of_call cs) = []"
      by blast
    have "templateConfigsFor r2 tmpl = templateConfigsFor (rn p) tmpl"
      by (simp add: r2_def templateConfigsFor_def)
    with cs u delta_trans [OF d2 cs(1)] show ?thesis
      by (intro exI [of _ "u @ cs"]) simp
  next
    case (Some q)
    with assms have "p' = (p\<lparr>rn := r2\<rparr>)\<lparr>rn := (rn (p\<lparr>rn := r2\<rparr>))\<lparr>quiescenceMap :=
        (quiescenceMap r2)(ID tmpl \<mapsto> tick (Now env (calls r2)) q)\<rparr>\<rparr>"
      by (simp add: render_template_def r2)
    with delta_rn_update(2) [OF d2] have "delta p u p'"
      by simp
    with u show ?thesis by blast
  qed
qed

text \<open>The body of the loop for a template whose evaluation succeeds, written out.\<close>

lemma run_template_evaluated:
  assumes "\<not> (once (rn p) \<and> event_of (rn p) (ID tmpl) \<noteq> None)"
    and "Execute env (calls (rn p)) tmpl (brain (rn p)) = Inr result"
    and "isLeader = (if dedup (rn p) then IsLeader env (calls (rn p)) tmpl else True)"
    and "missing = Missing result @ filter (\<lambda>d. isLeader \<and> \<not> Watching (watcher (rn p)) d) (Used result)"
    and "unwatched = filter (\<lambda>d. \<not> Watching (watcher (rn p)) d) missing"
    and "p1 = p\<lparr>rn := (rn p)\<lparr>calls := calls (rn p) @ [ExecuteCall tmpl (Inr result)]\<rparr>,
               depsMap := fold add_dep (Used result) (depsMap p)\<rparr>"
  shows "run_template env tmpl p =
     (if unwatched \<noteq> [] then
        Inr (p1\<lparr>rn := (rn p1)\<lparr>watcher :=
               watcher (rn p) \<union> HashCode ` {d \<in> set unwatched. isLeader \<or> \<not> CanShare d}\<rparr>\<rparr>)
      else if missing \<noteq> [] then Inr p1
      else render_template env tmpl isLeader result p1)"
proof -
  have c: "(once (rn p) \<and> event_of (rn p) (ID tmpl) \<noteq> None) = False"
    using assms(1) by blast
  show ?thesis
    unfolding run_template_def Let_def c if_False assms(2) sum.case collect_used_eq prod.case
    unfolding assms(3) [symmetric]
    by (simp add: assms(4,5,6) subscribe_eq)
qed

lemma render_template_watcher:
  assumes "render_template env tmpl l result p = Inr p'"
  shows "watcher (rn p') = watcher (rn p)"
proof -
  define r2 where "r2 = (if dedup (rn p) \<and> l
             then (rn p)\<lparr>calls := calls (rn p) @ [UpdateDepsCall tmpl (Used result)]\<rparr>
             else rn p)"
  have w: "watcher r2 = watcher (rn p)"
    by (simp add: r2_def)
  show ?thesis
  proof (cases "quiescenceMap r2 (ID tmpl)")
    case None
    with assms have "render_configs env tmpl (Output result) (templateConfigsFor r2 tmpl)
        (p\<lparr>rn := r2\<rparr>) = Inr p'"
      by (simp add: render_template_def flip: r2_def)
    from render_configs_fields [OF this] w show ?thesis by simp
  next
    case (Some q)
    with assms have "p' = p\<lparr>rn := r2\<lparr>quiescenceMap :=
        (quiescenceMap r2)(ID tmpl \<mapsto> tick (Now env (calls r2)) q)\<rparr>\<rparr>"
      by (simp add: render_template_def flip: r2_def)
    with w show ?thesis by simp
  qed
qed

lemma run_template_delta:
  assumes "run_template env tmpl p = Inr p'"
  shows "\<exists>cs. delta p cs p'
     \<and> (concat (map rendered_config cs) = []
        \<or> concat (map rendered_config cs) = templateConfigsFor (rn p) tmpl)"
proof (cases "once (rn p) \<and> event_of (rn p) (ID tmpl) \<noteq> None")
  case True
  with assms have "p' = p"
    by (simp add: run_template_def Let_def)
  then have "delta p [] p'" by simp
  then show ?thesis by force
next
  case False
  from assms False obtain result
    where ex: "Execute env (calls (rn p)) tmpl (brain (rn p)) = Inr result"
    by (cases "Execute env (calls (rn p)) tmpl (brain (rn p))")
      (auto simp: run_template_def Let_def)
  define isLeader where "isLeader = (if dedup (rn p) then IsLeader env (calls (rn p)) tmpl else True)"
  define missing where "missing = Missing result
      @ filter (\<lambda>d. isLeader \<and> \<not> Watching (watcher (rn p)) d) (Used result)"
  define unwatched where "unwatched = filter (\<lambda>d. \<not> Watching (watcher (rn p)) d) missing"
  define c where "c = ExecuteCall tmpl (Inr result)"
  define p1 where "p1 = p\<lparr>rn := (rn p)\<lparr>calls := calls (rn p) @ [c]\<rparr>,
               depsMap := fold add_dep (Used result) (depsMap p)\<rparr>"
  note eq = run_template_evaluated [OF False ex isLeader_def missing_def unwatched_def
      p1_def [unfolded c_def]]
  have d1: "delta p [c] p1"
    by (simp add: delta_def p1_def c_def eligible_def)
  have c: "concat (map rendered_config [c]) = []"
    by (simp add: c_def)
  have tcf: "templateConfigsFor (rn p1) tmpl = templateConfigsFor (rn p) tmpl"
    by (simp add: p1_def templateConfigsFor_def)
  consider (unwatched) "unwatched \<noteq> []" | (missing) "unwatched = []" "missing \<noteq> []"
    | (render) "unwatched = []" "missing = []"
    by blast
  then show ?thesis
  proof cases
    case unwatched
    with eq assms have "p' = p1\<lparr>rn := (rn p1)\<lparr>watcher :=
               watcher (rn p) \<union> HashCode ` {d \<in> set unwatched. isLeader \<or> \<not> CanShare d}\<rparr>\<rparr>"
      by simp
    with delta_rn_update(1) [OF d1] have "delta p [c] p'" by simp
    with c show ?thesis by blast
  next
    case missing
    with eq assms have "p' = p1" by simp
    with d1 c show ?thesis by blast
  next
    case render
    with eq assms have "render_template env tmpl isLeader result p1 = Inr p'" by simp
    from render_template_delta [OF this] obtain cs where cs: "delta p1 cs p'"
      "concat (map rendered_config cs) = []
        \<or> concat (map rendered_config cs) = templateConfigsFor (rn p1) tmpl"
      by blast
    from delta_trans [OF d1 cs(1)] cs(2) c tcf show ?thesis
      by (intro exI [of _ "[c] @ cs"]) simp
  qed
qed

lemma delta_templateConfigsFor:
  "delta p cs p' \<Longrightarrow> templateConfigsFor (rn p') = templateConfigsFor (rn p)"
  by (auto simp: delta_def frame_def templateConfigsFor_def fun_eq_iff)

lemma run_templates_delta:
  "run_templates env tmpls p = Inr p' \<Longrightarrow>
   \<exists>cs. delta p cs p'
     \<and> subseq (concat (map rendered_config cs)) (concat (map (templateConfigsFor (rn p)) tmpls))"
proof (induction tmpls arbitrary: p)
  case Nil
  then have "delta p [] p'" by simp
  then show ?case by force
next
  case (Cons tmpl tmpls)
  from Cons.prems obtain p1 where p1: "run_template env tmpl p = Inr p1"
    and rest: "run_templates env tmpls p1 = Inr p'"
    by (auto split: sum.splits)
  from run_template_delta [OF p1] obtain cs1 where cs1: "delta p cs1 p1"
    "concat (map rendered_config cs1) = []
        \<or> concat (map rendered_config cs1) = templateConfigsFor (rn p) tmpl"
    by blast
  from Cons.IH [OF rest] obtain cs2 where cs2: "delta p1 cs2 p'"
    "subseq (concat (map rendered_config cs2)) (concat (map (templateConfigsFor (rn p1)) tmpls))"
    by blast
  have "subseq (concat (map rendered_config cs1)) (templateConfigsFor (rn p) tmpl)"
  proof (rule disjE [OF cs1(2)])
    assume a: "concat (map rendered_config cs1) = []"
    show ?thesis unfolding a by simp
  next
    assume a: "concat (map rendered_config cs1) = templateConfigsFor (rn p) tmpl"
    show ?thesis unfolding a by simp
  qed
  with cs2(2) delta_templateConfigsFor [OF cs1(1)]
  have "subseq (concat (map rendered_config (cs1 @ cs2)))
          (concat (map (templateConfigsFor (rn p)) (tmpl # tmpls)))"
    by (simp add: list_emb_append_mono)
  with delta_trans [OF cs1(1) cs2(1)] show ?case by blast
qed

subsection \<open>The commands of a pass\<close>

lemma commandExists_iff: "commandExists c cs \<longleftrightarrow> Command c \<in> Command ` set cs"
  by (induction cs) auto

lemma set_first_occurrences: "Command ` set (first_occurrences cs) = Command ` set cs"
proof (induction cs rule: first_occurrences.induct)
  case 1
  then show ?case by simp
next
  case (2 c cs)
  then show ?case by auto
qed

lemma first_occurrences_subset: "set (first_occurrences cs) \<subseteq> set cs"
proof (induction cs rule: first_occurrences.induct)
  case 1
  then show ?case by simp
next
  case (2 c cs)
  then show ?case by auto
qed

lemma distinct_first_occurrences: "distinct (map Command (first_occurrences cs))"
proof (induction cs rule: first_occurrences.induct)
  case 1
  then show ?case by simp
next
  case (2 c cs)
  have "Command c \<notin> Command ` set (first_occurrences (filter (\<lambda>c'. Command c' \<noteq> Command c) cs))"
    unfolding set_first_occurrences by auto
  with 2 show ?case by simp
qed

lemma subseq_first_occurrences: "subseq (first_occurrences cs) cs"
proof (induction cs rule: first_occurrences.induct)
  case 1
  then show ?case by simp
next
  case (2 c cs)
  have "subseq (filter (\<lambda>c'. Command c' \<noteq> Command c) cs) cs"
    by simp
  with 2 have "subseq (first_occurrences (filter (\<lambda>c'. Command c' \<noteq> Command c) cs)) cs"
    by (rule subseq_order.trans)
  then show ?case by simp
qed

lemma first_occurrences_snoc:
  "first_occurrences (cs @ [c]) =
     (if Command c \<in> Command ` set cs then first_occurrences cs
      else first_occurrences cs @ [c])"
proof (induction cs rule: first_occurrences.induct)
  case 1
  then show ?case by simp
next
  case (2 c' cs)
  then show ?case by auto
qed

lemma fold_add_command:
  "fold add_command cs (first_occurrences acc) = first_occurrences (acc @ cs)"
proof (induction cs arbitrary: acc)
  case Nil
  then show ?case by simp
next
  case (Cons c cs)
  have "add_command c (first_occurrences acc) = first_occurrences (acc @ [c])"
    by (simp add: add_command_def commandExists_iff first_occurrences_snoc
        set_first_occurrences)
  with Cons [of "acc @ [c]"] show ?case by simp
qed

lemma commands_first_occurrences: "fold add_command cs [] = first_occurrences cs"
  using fold_add_command [of cs "[]"] by simp

lemma subseq_eligible:
  "subseq (concat (map (eligible d) cs)) (concat (map rendered_config cs))"
  by (induction cs) (simp_all add: eligible_def list_emb_append_mono)

lemma eligible_member:
  "tc \<in> set (concat (map (eligible d) cs)) \<Longrightarrow>
   \<not> d \<and> Command tc \<noteq> '''' \<and>
   (\<exists>t i res. RenderCall t tc i (Inr res) \<in> set cs \<and> DidRender res)"
proof (induction cs)
  case Nil
  then show ?case by simp
next
  case (Cons c cs)
  show ?case
  proof (cases "tc \<in> set (eligible d c)")
    case True
    then obtain t i res where "c = RenderCall t tc i (Inr res)" "DidRender res"
      "\<not> d" "Command tc \<noteq> ''''"
      by (cases c rule: did_render.cases) (auto simp: eligible_def split: if_splits)
    then show ?thesis by auto
  next
    case False
    with Cons show ?thesis by auto
  qed
qed

subsection \<open>Spawning the commands\<close>

lemma exec_commands_calls:
  "exec_commands env ts errs r = Inr (errs', r') \<Longrightarrow>
   \<exists>results. length results = length ts
     \<and> r' = r\<lparr>calls := calls r @ map (\<lambda>(t, res). SpawnCall (Command t) res) (zip ts results)\<rparr>
     \<and> errs' = errs @ spawn_errors results"
  unfolding spawn_errors_def
proof (induction ts arbitrary: errs r)
  case Nil
  then show ?case by simp
next
  case (Cons t ts)
  from Cons.prems obtain res where res: "spawnChild env (calls r) (Command t) = Inr res"
    and rest: "exec_commands env ts
            (case res of Inl err \<Rightarrow> errs @ [err] | Inr c \<Rightarrow> errs)
            (r\<lparr>calls := calls r @ [SpawnCall (Command t) res]\<rparr>) = Inr (errs', r')"
    by (auto split: sum.splits)
  from Cons.IH [OF rest] obtain results where results: "length results = length ts"
     "r' = r\<lparr>calls := calls r @ [SpawnCall (Command t) res]
           @ map (\<lambda>(t, res). SpawnCall (Command t) res) (zip ts results)\<rparr>"
     "errs' = (case res of Inl err \<Rightarrow> errs @ [err] | Inr c \<Rightarrow> errs)
           @ concat (map (\<lambda>res. case res of Inl err \<Rightarrow> [err] | Inr c \<Rightarrow> []) results)"
    by auto
  show ?case
  proof (intro exI [of _ "res # results"] conjI)
    show "length (res # results) = length (t # ts)"
      using results(1) by simp
    show "r' = r\<lparr>calls := calls r
        @ map (\<lambda>(t, res). SpawnCall (Command t) res) (zip (t # ts) (res # results))\<rparr>"
      using results(2) by simp
    show "errs' = errs
        @ concat (map (\<lambda>res. case res of Inl err \<Rightarrow> [err] | Inr c \<Rightarrow> []) (res # results))"
      using results(3) by (cases res) simp_all
  qed
qed

subsection \<open>A pass that stops at an error\<close>

lemma render_configs_stopped:
  "render_configs env tmpl out cfgs p = Inl (err, r') \<Longrightarrow> frame (rn p) r'"
proof (induction cfgs arbitrary: p)
  case Nil
  then show ?case by simp
next
  case (Cons tc cfgs)
  define input where "input = \<lparr>in_Backup = Backup tc, Contents = out, Dry = dry (rn p),
              Path = Destination tc, in_Perms = Perms tc\<rparr>"
  define res where "res = Render env (calls (rn p)) input"
  define r1 where "r1 = (rn p)\<lparr>calls := calls (rn p) @ [RenderCall tmpl tc input res]\<rparr>"
  show ?case
  proof (cases res)
    case (Inl e)
    with Cons.prems have "r' = r1"
      by (simp add: Let_def input_def res_def r1_def)
    then show ?thesis by (simp add: r1_def)
  next
    case (Inr result)
    with Cons.prems
    have "render_configs env tmpl out cfgs (after_render env tmpl tc result (p\<lparr>rn := r1\<rparr>))
        = Inl (err, r')"
      by (simp add: Let_def input_def res_def r1_def)
    from Cons.IH [OF this] show ?thesis by (simp add: r1_def)
  qed
qed

lemma render_template_stopped:
  assumes "render_template env tmpl l result p = Inl (err, r')"
  shows "frame (rn p) r'"
proof -
  define r2 where "r2 = (if dedup (rn p) \<and> l
             then (rn p)\<lparr>calls := calls (rn p) @ [UpdateDepsCall tmpl (Used result)]\<rparr>
             else rn p)"
  have f: "frame (rn p) r2"
    by (simp add: r2_def)
  show ?thesis
  proof (cases "quiescenceMap r2 (ID tmpl)")
    case None
    with assms have "render_configs env tmpl (Output result) (templateConfigsFor r2 tmpl)
        (p\<lparr>rn := r2\<rparr>) = Inl (err, r')"
      by (simp add: render_template_def flip: r2_def)
    from render_configs_stopped [OF this] f show ?thesis
      by (auto intro: frame_trans)
  next
    case (Some q)
    with assms show ?thesis
      by (simp add: render_template_def flip: r2_def)
  qed
qed

lemma run_template_stopped:
  assumes "run_template env tmpl p = Inl (err, r')"
  shows "frame (rn p) r'"
proof (cases "once (rn p) \<and> event_of (rn p) (ID tmpl) \<noteq> None")
  case True
  with assms show ?thesis
    by (simp add: run_template_def Let_def)
next
  case False
  then have c: "(once (rn p) \<and> event_of (rn p) (ID tmpl) \<noteq> None) = False"
    by blast
  show ?thesis
  proof (cases "Execute env (calls (rn p)) tmpl (brain (rn p))")
    case (Inl e)
    from assms have "r' = (rn p)\<lparr>calls := calls (rn p) @ [ExecuteCall tmpl (Inl e)]\<rparr>"
      unfolding run_template_def Let_def c if_False Inl by auto
    then show ?thesis by simp
  next
    case (Inr result)
    define isLeader where "isLeader = (if dedup (rn p) then IsLeader env (calls (rn p)) tmpl else True)"
    define missing where "missing = Missing result
      @ filter (\<lambda>d. isLeader \<and> \<not> Watching (watcher (rn p)) d) (Used result)"
    define unwatched where "unwatched = filter (\<lambda>d. \<not> Watching (watcher (rn p)) d) missing"
    define p1 where "p1 = p\<lparr>rn := (rn p)\<lparr>calls := calls (rn p) @ [ExecuteCall tmpl (Inr result)]\<rparr>,
               depsMap := fold add_dep (Used result) (depsMap p)\<rparr>"
    note eq = run_template_evaluated [OF False Inr isLeader_def missing_def unwatched_def p1_def]
    from assms eq have "render_template env tmpl isLeader result p1 = Inl (err, r')"
      by (simp split: if_splits)
    from render_template_stopped [OF this] show ?thesis
      by (simp add: p1_def)
  qed
qed

lemma delta_frame: "delta p cs p' \<Longrightarrow> frame (rn p) (rn p')"
  by (simp add: delta_def)

lemma run_templates_stopped:
  "run_templates env tmpls p = Inl (err, r') \<Longrightarrow> frame (rn p) r'"
proof (induction tmpls arbitrary: p)
  case Nil
  then show ?case by simp
next
  case (Cons tmpl tmpls)
  show ?case
  proof (cases "run_template env tmpl p")
    case (Inl stop)
    with Cons.prems have "run_template env tmpl p = Inl (err, r')" by simp
    then show ?thesis by (rule run_template_stopped)
  next
    case (Inr p1)
    with Cons.prems have "run_templates env tmpls p1 = Inl (err, r')" by simp
    from Cons.IH [OF this] run_template_delta [OF Inr] show ?thesis
      by (auto intro: frame_trans dest: delta_frame)
  qed
qed

subsection \<open>The end of a pass\<close>

text \<open>The hash codes that \<^verbatim>\<open>diffAndUpdateDeps\<close> removes and forgets.\<close>

lemma diff_fold:
  "fold (\<lambda>(key, d) r'.
              if map_of dm key = None
              then r'\<lparr>watcher := Remove d (watcher r'), brain := Forget d (brain r')\<rparr>
              else r') xs r
   = r\<lparr>watcher := watcher r - HashCode ` snd ` {kd \<in> set xs. map_of dm (fst kd) = None},
       brain := (\<lambda>k. if k \<in> HashCode ` snd ` {kd \<in> set xs. map_of dm (fst kd) = None}
                      then None else brain r k)\<rparr>"
proof (induction xs arbitrary: r)
  case Nil
  then show ?case by simp
next
  case (Cons x xs)
  obtain key d where x: "x = (key, d)" by (cases x)
  show ?case
  proof (cases "map_of dm key = None")
    case True
    have s: "{kd \<in> set (x # xs). map_of dm (fst kd) = None}
        = insert x {kd \<in> set xs. map_of dm (fst kd) = None}"
      using True x by auto
    show ?thesis
      unfolding s using True x
      by (simp add: Cons.IH Remove_def Forget_def fun_eq_iff Diff_insert2 [symmetric])
  next
    case False
    have s: "{kd \<in> set (x # xs). map_of dm (fst kd) = None}
        = {kd \<in> set xs. map_of dm (fst kd) = None}"
      using False x by auto
    from False obtain y where y: "map_of dm key = Some y" by auto
    show ?thesis
      unfolding s using y x by (simp add: Cons.IH)
  qed
qed

lemma diffAndUpdateDeps_eq:
  "diffAndUpdateDeps dm r
   = r\<lparr>watcher := watcher r - retired dm (dependencies r),
       brain := (\<lambda>k. if k \<in> retired dm (dependencies r) then None else brain r k),
       dependencies := dm\<rparr>"
  unfolding diffAndUpdateDeps_def diff_fold retired_def by simp

lemma finish_Return:
  assumes "finish env p = Return e r'"
  shows "\<exists>results rl rerrs.
      length results = length (commands p)
    \<and> r' = (rn p)
        \<lparr>renderedCh := (if wouldRenderAny p \<or> renderedAny p
                        then try_send (renderedCh (rn p)) else renderedCh (rn p)),
         watcher := watcher (rn p) - retired (depsMap p) (dependencies (rn p)),
         brain := (\<lambda>k. if k \<in> retired (depsMap p) (dependencies (rn p)) then None
                        else brain (rn p) k),
         dependencies := depsMap p,
         calls := calls (rn p)
           @ map (\<lambda>(t, res). SpawnCall (Command t) res) (zip (commands p) results) @ rl\<rparr>
    \<and> concat (map spawned rl) = []
    \<and> e = (if spawn_errors results @ rerrs = [] then None
            else Some (MultiError (spawn_errors results @ rerrs)))"
proof -
  define r1 where "r1 = (if wouldRenderAny p \<or> renderedAny p
                then (rn p)\<lparr>renderedCh := try_send (renderedCh (rn p))\<rparr> else rn p)"
  define r2 where "r2 = diffAndUpdateDeps (depsMap p) r1"
  have r2: "r2 = (rn p)
        \<lparr>renderedCh := (if wouldRenderAny p \<or> renderedAny p
                        then try_send (renderedCh (rn p)) else renderedCh (rn p)),
         watcher := watcher (rn p) - retired (depsMap p) (dependencies (rn p)),
         brain := (\<lambda>k. if k \<in> retired (depsMap p) (dependencies (rn p)) then None
                        else brain (rn p) k),
         dependencies := depsMap p\<rparr>"
    unfolding r2_def diffAndUpdateDeps_eq r1_def by (simp cong: if_cong)
  from assms obtain errs r3 where ex: "exec_commands env (commands p) [] r2 = Inr (errs, r3)"
    and fin: "(let (errs', r4) =
                    (if renderedAny p then
                       (case child r3 of
                          Some c \<Rightarrow>
                            (let e = ChildReload env (calls r3) c
                             in (case e of Some err \<Rightarrow> errs @ [err] | None \<Rightarrow> errs,
                                 r3\<lparr>calls := calls r3 @ [ReloadCall c e]\<rparr>))
                        | None \<Rightarrow> (errs, r3))
                     else (errs, r3))
              in Return (if errs' \<noteq> [] then Some (MultiError errs') else None) r4)
          = Return e r'"
    unfolding finish_def Let_def r1_def [symmetric] r2_def [symmetric]
    by (cases "exec_commands env (commands p) [] r2") (auto simp: Let_def)
  from exec_commands_calls [OF ex] obtain results where results:
    "length results = length (commands p)"
    "r3 = r2\<lparr>calls := calls r2 @ map (\<lambda>(t, res). SpawnCall (Command t) res) (zip (commands p) results)\<rparr>"
    "errs = spawn_errors results"
    by auto
  have c2: "calls r2 = calls (rn p)"
    by (simp add: r2)
  consider (none) "\<not> renderedAny p \<or> child r3 = None"
    | (reload) c where "renderedAny p" "child r3 = Some c"
    by (cases "child r3") auto
  then show ?thesis
  proof cases
    case none
    with fin have "r' = r3" "e = (if errs \<noteq> [] then Some (MultiError errs) else None)"
      by (auto split: if_splits option.splits)
    with results show ?thesis
      by (intro exI [of _ results] exI [of _ "[]"]) (simp add: r2)
  next
    case reload
    define x where "x = ChildReload env (calls r3) c"
    define rerrs where "rerrs = (case x of Some err \<Rightarrow> [err] | None \<Rightarrow> [])"
    from reload fin have "r' = r3\<lparr>calls := calls r3 @ [ReloadCall c x]\<rparr>"
      "e = (if errs @ rerrs \<noteq> [] then Some (MultiError (errs @ rerrs)) else None)"
      by (auto simp: Let_def x_def rerrs_def split: option.splits)
    with results show ?thesis
      by (intro exI [of _ results] exI [of _ "[ReloadCall c x]"] exI [of _ rerrs])
        (simp add: r2)
  qed
qed

lemma Run_cases:
  assumes "Run env r = Return e r'"
  obtains (stopped) err where "run_templates env (templates r) (start_pass r) = Inl (err, r')"
      "e = Some err"
    | (finished) p where "run_templates env (templates r) (start_pass r) = Inr p"
      "finish env p = Return e r'"
  using assms unfolding Run_def
  by (cases "run_templates env (templates r) (start_pass r)") auto

subsection \<open>What holds of every state of a runner\<close>

lemma keeps_refl [simp]: "keeps r r"
  by (simp add: keeps_def)

lemma keeps_trans: "keeps r r' \<Longrightarrow> keeps r' r'' \<Longrightarrow> keeps r r''"
  by (simp add: keeps_def)

lemma keeps_updates [simp]:
  "keeps r (r'\<lparr>calls := cs\<rparr>) = keeps r r'"
  "keeps r (r'\<lparr>mem := m\<rparr>) = keeps r r'"
  "keeps r (r'\<lparr>watcher := w\<rparr>) = keeps r r'"
  "keeps r (r'\<lparr>quiescenceMap := q\<rparr>) = keeps r r'"
  "keeps r (r'\<lparr>ErrCh := es\<rparr>) = keeps r r'"
  "keeps r (r'\<lparr>DoneCh := b\<rparr>) = keeps r r'"
  "keeps r (r'\<lparr>child := ch\<rparr>) = keeps r r'"
  "keeps r (r'\<lparr>childLock := b\<rparr>) = keeps r r'"
  by (simp_all add: keeps_def)

lemma keeps_stop_helpers [simp]:
  "keeps r (push err r') = keeps r r'"
  "keeps r (stopDedup r') = keeps r r'"
  "keeps r (stopWatcher r') = keeps r r'"
  "keeps r (stopChild r') = keeps r r'"
  "keeps r (deletePid r') = keeps r r'"
  by (simp_all add: push_def stopDedup_def stopWatcher_def stopChild_def deletePid_def Let_def
      split: option.splits)

lemma Stop_keeps:
  "Stop r = Return u r' \<Longrightarrow> keeps r r'"
  "Stop r = Panic pn r' \<Longrightarrow> keeps r r'"
  by (auto simp: Stop_def Let_def split: if_splits)

lemma enable_quiescence_for_keeps [simp]:
  "keeps r (enable_quiescence_for t r') = keeps r r'"
  by (simp add: enable_quiescence_for_def split: option.splits)

lemma fold_enable_keeps: "keeps r (fold enable_quiescence_for ts r') = keeps r r'"
  by (induction ts arbitrary: r') simp_all

lemma enable_quiescence_keeps [simp]: "keeps r (enable_quiescence r') = keeps r r'"
proof -
  have "keeps r' (enable_quiescence r')"
    unfolding enable_quiescence_def by (simp add: fold_enable_keeps)
  then show ?thesis
    by (auto simp: keeps_def)
qed

lemma wait_child_keeps: "keeps r (exit_state (wait_child b evs r))"
proof (induction evs arbitrary: r)
  case Nil
  then show ?case by simp
next
  case (Cons ev evs)
  show ?case
  proof (cases ev)
    case StopEv
    show ?thesis
    proof (cases "Stop r")
      case (Return u r')
      with StopEv Cons [of r'] Stop_keeps(1) [OF Return] show ?thesis
        by (auto intro: keeps_trans)
    next
      case (Panic pn r')
      with StopEv Stop_keeps(2) [OF Panic] show ?thesis by simp
    qed
  next
    case DoneEv
    show ?thesis
    proof (cases "Stop r")
      case (Return u r')
      with DoneEv Cons [of r] Stop_keeps(1) [OF Return] show ?thesis
        by auto
    next
      case (Panic pn r')
      with DoneEv Cons [of r] Stop_keeps(2) [OF Panic] show ?thesis by auto
    qed
  next
    case (ChildExitEv x)
    with Cons [of r] show ?thesis by (cases b) simp_all
  qed (use Cons in simp_all)
qed

lemma once_exit_keeps: "keeps r (wake_state (once_exit b evs r))"
proof (cases "once r")
  case False
  then show ?thesis by (simp add: once_exit_def)
next
  case True
  show ?thesis
  proof (cases "child r")
    case None
    with True Stop_keeps [of r] show ?thesis
      by (cases "Stop r") (simp_all add: once_exit_def)
  next
    case (Some c)
    have "keeps (stopWatcher (stopDedup r)) (exit_state (wait_child b evs (stopWatcher (stopDedup r))))"
      by (rule wait_child_keeps)
    moreover have "keeps r (stopWatcher (stopDedup r))" by simp
    ultimately have "keeps r (exit_state (wait_child b evs (stopWatcher (stopDedup r))))"
      by (rule keeps_trans [rotated])
    with True Some show ?thesis by (simp add: once_exit_def)
  qed
qed

lemma keeps_once_exit: "keeps r r' \<Longrightarrow> keeps r (wake_state (once_exit c evs r'))"
  using once_exit_keeps by (rule keeps_trans [rotated])

lemma loop_top_keeps: "keeps r (wake_state (fst (loop_top env c evs r)))"
proof -
  define r0 where "r0 = enable_quiescence r"
  have k0: "keeps r r0" by (simp add: r0_def)
  show ?thesis
  proof (cases "allTemplatesRendered r0 \<and> cfg_ExecCommand (config r0) \<noteq> ''''")
    case False
    with k0 keeps_once_exit [OF k0] show ?thesis
      by (auto simp: loop_top_def Let_def simp flip: r0_def)
  next
    case True
    define cmd where "cmd = cfg_ExecCommand (config r0)"
    show ?thesis
    proof (cases "child r0")
      case (Some ch)
      with True k0 keeps_once_exit [of r "r0\<lparr>childLock := False\<rparr>" True evs] show ?thesis
        by (auto simp: loop_top_def Let_def Unlock_def simp flip: r0_def)
    next
      case None
      show ?thesis
      proof (cases "spawnChild env (calls r0) cmd")
        case (Inl pn)
        with True None k0 show ?thesis
          by (auto simp: loop_top_def Let_def Unlock_def cmd_def simp flip: r0_def)
      next
        case (Inr res)
        define r1 where "r1 = r0\<lparr>calls := calls r0 @ [SpawnCall cmd res]\<rparr>"
        show ?thesis
        proof (cases res)
          case (Inl err)
          with True None Inr k0 show ?thesis
            by (auto simp: loop_top_def Let_def Unlock_def cmd_def push_def simp flip: r0_def)
        next
          case (Inr ch)
          with True None \<open>spawnChild env (calls r0) cmd = Inr res\<close> k0
            keeps_once_exit [of r "r1\<lparr>child := Some ch, childLock := False\<rparr>" True evs]
          show ?thesis
            by (auto simp: loop_top_def Let_def Unlock_def cmd_def r1_def simp flip: r0_def)
        qed
      qed
    qed
  qed
qed

lemma keeps_invariant: "keeps r r' \<Longrightarrow> invariant r \<Longrightarrow> invariant r'"
  by (simp add: keeps_def invariant_def)

lemma frame_invariant: "frame r r' \<Longrightarrow> invariant r \<Longrightarrow> invariant r'"
  by (simp add: frame_def invariant_def)

lemma Receive_invariant: "invariant r \<Longrightarrow> invariant (Receive d x r)"
  by (auto simp: invariant_def Receive_def Remember_def dest: map_of_SomeD weak_map_of_SomeI
      intro: rev_image_eqI)

lemma Receive_all_invariant:
  "invariant r \<Longrightarrow> invariant (fold (\<lambda>(d, x) r'. Receive d x r') views r)"
proof (induction views arbitrary: r)
  case Nil
  then show ?case by simp
next
  case (Cons v views)
  obtain d x where "v = (d, x)" by (cases v)
  with Cons show ?case by (simp add: Receive_invariant)
qed

lemma select_case_invariant:
  assumes "invariant r"
  shows "invariant (wake_state (select_case c ev r))"
proof (cases ev)
  case (DataEv v vs)
  with Receive_all_invariant [OF assms, of "v # vs"] show ?thesis
    by (simp add: select_case_def)
next
  case (WatcherErrEv err)
  with assms show ?thesis
    by (cases err) (auto simp: select_case_def intro: keeps_invariant [rotated])
next
  case StopEv
  with assms Stop_keeps [of r] show ?thesis
    by (cases "Stop r") (auto simp: select_case_def intro: keeps_invariant)
qed (use assms in \<open>auto simp: select_case_def intro: keeps_invariant [rotated]\<close>)

lemma RenderEvents_keeps: "keeps r (snd (RenderEvents r))"
  by (simp add: RenderEvents_def Let_def split: prod.splits)

lemma init_invariant: "init env cfg d o' = Inr r \<Longrightarrow> invariant r"
  by (auto simp: init_def Let_def invariant_def new_map_def
      split: option.splits sum.splits prod.splits if_splits)


lemma fold_add_dep_filed:
  "list_all (\<lambda>(k, d). k = HashCode d) dm \<Longrightarrow>
   list_all (\<lambda>(k, d). k = HashCode d) (fold add_dep us dm)"
  by (induction us arbitrary: dm) (simp_all add: add_dep_def)


lemma try_send_bound:
  "cap c = 1 \<Longrightarrow> buffered c \<le> 1 \<Longrightarrow> cap (try_send c) = 1 \<and> buffered (try_send c) \<le> 1"
  by (simp add: try_send_def)

text \<open>The end of a pass re-establishes the invariant.\<close>

lemma finish_invariant:
  assumes inv: "invariant r" and d: "delta (start_pass r) cs p" and fin: "finish env p = Return e r'"
  shows "invariant r'"
proof -
  have f: "frame r (rn p)"
    using d by (simp add: delta_def start_pass_def)
  then have same: "dependencies (rn p) = dependencies r" "brain (rn p) = brain r"
    "renderedCh (rn p) = renderedCh r"
    by (simp_all add: frame_def)
  have dm: "depsMap p = fold add_dep (concat (map used_of_call cs)) []"
    using d by (simp add: delta_def start_pass_def)
  from finish_Return [OF fin] obtain cs' where r': "r' = (rn p)
        \<lparr>renderedCh := (if wouldRenderAny p \<or> renderedAny p
                        then try_send (renderedCh (rn p)) else renderedCh (rn p)),
         watcher := watcher (rn p) - retired (depsMap p) (dependencies (rn p)),
         brain := (\<lambda>k. if k \<in> retired (depsMap p) (dependencies (rn p)) then None
                        else brain (rn p) k),
         dependencies := depsMap p,
         calls := cs'\<rparr>"
    by blast
  have 1: "list_all (\<lambda>(k, d). k = HashCode d) (dependencies r')"
    unfolding r' dm by (simp add: fold_add_dep_filed)
  have 2: "dom (brain r') \<subseteq> fst ` set (dependencies r')"
  proof
    fix k assume "k \<in> dom (brain r')"
    then have nr: "k \<notin> retired (depsMap p) (dependencies r)" and "k \<in> dom (brain r)"
      unfolding r' same by (auto split: if_splits)
    with inv obtain d where kd: "(k, d) \<in> set (dependencies r)"
      by (auto simp: invariant_def)
    with inv have "k = HashCode d"
      by (auto simp: invariant_def list_all_iff)
    with nr kd have "map_of (depsMap p) k \<noteq> None"
      by (force simp: retired_def)
    then show "k \<in> fst ` set (dependencies r')"
      unfolding r' by (simp add: map_of_eq_None_iff)
  qed
  have 3: "cap (renderedCh r') = 1 \<and> buffered (renderedCh r') \<le> 1"
    using inv try_send_bound [of "renderedCh r"]
    unfolding r' same by (simp add: invariant_def)
  from 1 2 3 show ?thesis
    by (simp add: invariant_def)
qed

lemma start_pass_delta:
  assumes "run_templates env (templates r) (start_pass r) = Inr p"
  obtains cs where "delta (start_pass r) cs p"
    "subseq (concat (map rendered_config cs)) (concat (map (templateConfigsFor r) (templates r)))"
    "cs = new_calls r (rn p)"
proof -
  from run_templates_delta [OF assms] obtain cs where cs: "delta (start_pass r) cs p"
    "subseq (concat (map rendered_config cs))
       (concat (map (templateConfigsFor (rn (start_pass r))) (templates r)))"
    by blast
  have "cs = new_calls r (rn p)"
    using cs(1) by (simp add: delta_def start_pass_def new_calls_def)
  with cs that show ?thesis
    by (simp add: start_pass_def)
qed

lemma Run_invariant:
  assumes "invariant r" and "Run env r = Return e r'"
  shows "invariant r'"
  using assms(2)
proof (cases rule: Run_cases)
  case (stopped err)
  from run_templates_stopped [OF stopped(1)] have "frame r r'"
    by (simp add: start_pass_def)
  then show ?thesis using assms(1) by (rule frame_invariant)
next
  case (finished p)
  from finished(1) obtain cs where "delta (start_pass r) cs p"
    by (rule start_pass_delta)
  with assms(1) show ?thesis using finished(2) by (rule finish_invariant)
qed

lemma reachable_invariant: "reachable env r \<Longrightarrow> invariant r"
proof (induction rule: reachable.induct)
  case (reach_new cfg dry' once' r)
  then show ?case by (simp add: NewRunner_def init_invariant)
next
  case (reach_top r c evs)
  from loop_top_keeps reach_top.IH show ?case by (rule keeps_invariant)
next
  case (reach_select r c ev)
  then show ?case by (simp add: select_case_invariant)
next
  case (reach_Run r e r')
  then show ?case by (simp add: Run_invariant)
next
  case (reach_Stop r u r')
  with Stop_keeps(1) show ?case by (blast intro: keeps_invariant)
next
  case (reach_RenderEvents r)
  from RenderEvents_keeps reach_RenderEvents.IH show ?case by (rule keeps_invariant)
next
  case (reach_read r)
  then show ?case by (simp add: invariant_def)
qed

subsection \<open>The order of a pass and the declared configurations\<close>

lemma map_of_assign: "map_of (assign k v kvs) = (map_of kvs)(k \<mapsto> v)"
  by (induction kvs) (auto simp: fun_eq_iff)

lemma set_fold_add_id: "set (fold add_id xs acc) = set xs \<union> set acc"
  by (induction xs arbitrary: acc) (auto simp: add_id_def)

lemma first_ids_snoc: "first_ids (xs @ [x]) = add_id x (first_ids xs)"
  by (simp add: first_ids_def)

lemma set_first_ids: "set (first_ids xs) = set xs"
  by (simp add: first_ids_def set_fold_add_id)

lemma grouped_step:
  assumes g: "grouped env pre tmpls cmap" and n: "NewTemplate env c = Inr t"
  shows "grouped env (pre @ [c])
           (if map_of cmap (ID t) = None then tmpls @ [t] else tmpls)
           (assign (ID t)
              ((case map_of (if map_of cmap (ID t) = None then assign (ID t) [] cmap else cmap) (ID t) of
                  None \<Rightarrow> [] | Some cs \<Rightarrow> cs) @ [c])
              (if map_of cmap (ID t) = None then assign (ID t) [] cmap else cmap))"
proof -
  have tid: "template_id env c = Some (ID t)"
    using n by (simp add: template_id_def)
  from g have ids: "map (\<lambda>t. Some (ID t)) tmpls = first_ids (map (template_id env) pre)"
    and m: "\<And>i. map_of cmap i =
          (if i \<in> ID ` set tmpls then Some (filter (\<lambda>c. template_id env c = Some i) pre)
           else None)"
    by (simp_all add: grouped_def)
  have mem: "Some (ID t) \<in> set (map (\<lambda>t. Some (ID t)) tmpls) \<longleftrightarrow> ID t \<in> ID ` set tmpls"
    by auto
  show ?thesis
  proof (cases "ID t \<in> ID ` set tmpls")
    case True
    then have s: "map_of cmap (ID t) = Some (filter (\<lambda>c. template_id env c = Some (ID t)) pre)"
      by (simp add: m)
    have "map (\<lambda>t. Some (ID t)) tmpls = first_ids (map (template_id env) (pre @ [c]))"
      using True mem by (simp add: first_ids_snoc tid add_id_def ids [symmetric])
    moreover have "map_of (assign (ID t) (filter (\<lambda>c. template_id env c = Some (ID t)) pre @ [c]) cmap) i =
          (if i \<in> ID ` set tmpls then Some (filter (\<lambda>c. template_id env c = Some i) (pre @ [c]))
           else None)" for i
      using True by (simp add: map_of_assign m tid)
    ultimately show ?thesis
      using s by (simp add: grouped_def)
  next
    case False
    then have s: "map_of cmap (ID t) = None"
      by (simp add: m)
    have "Some (ID t) \<notin> set (first_ids (map (template_id env) pre))"
      using False mem by (simp add: ids [symmetric])
    then have e: "filter (\<lambda>c. template_id env c = Some (ID t)) pre = []"
      by (force simp: set_first_ids filter_empty_conv image_iff)
    have "map (\<lambda>t. Some (ID t)) (tmpls @ [t]) = first_ids (map (template_id env) (pre @ [c]))"
      using False mem by (simp add: first_ids_snoc tid add_id_def ids [symmetric])
    moreover have "map_of (assign (ID t) ([] @ [c]) (assign (ID t) [] cmap)) i =
          (if i \<in> ID ` set (tmpls @ [t]) then Some (filter (\<lambda>c. template_id env c = Some i) (pre @ [c]))
           else None)" for i
      using False by (auto simp: map_of_assign m tid e)
    ultimately show ?thesis
      using s by (simp add: grouped_def map_of_assign)
  qed
qed

lemma init_templates_grouped:
  assumes "init_templates env cs tmpls cmap = Inr (T, M)" and "grouped env pre tmpls cmap"
  shows "grouped env (pre @ cs) T M"
  using assms
proof (induction cs arbitrary: pre tmpls cmap)
  case Nil
  then show ?case by simp
next
  case (Cons c cs)
  from Cons.prems(1) obtain t where n: "NewTemplate env c = Inr t"
    by (cases "NewTemplate env c") simp_all
  note st = grouped_step [OF Cons.prems(2) n]
  from Cons.prems(1) have "grouped env ((pre @ [c]) @ cs) T M"
    unfolding init_templates.simps n sum.case Let_def
    by (rule Cons.IH) (rule st)
  then show ?case by simp
qed

lemma grouped_pass_order:
  assumes "grouped env cs tmpls cmap"
  shows "concat (map (\<lambda>t. case map_of cmap (ID t) of None \<Rightarrow> [] | Some x \<Rightarrow> x) tmpls)
       = declared_pass_order env cs"
proof -
  from assms have ids: "first_ids (map (template_id env) cs) = map (\<lambda>t. Some (ID t)) tmpls"
    and m: "\<And>i. map_of cmap i =
          (if i \<in> ID ` set tmpls then Some (filter (\<lambda>c. template_id env c = Some i) cs)
           else None)"
    by (simp_all add: grouped_def)
  have "map (\<lambda>t. case map_of cmap (ID t) of None \<Rightarrow> [] | Some x \<Rightarrow> x) tmpls
      = map (\<lambda>t. filter (\<lambda>c. template_id env c = Some (ID t)) cs) tmpls"
    by (rule map_cong) (simp_all add: m)
  then show ?thesis
    unfolding declared_pass_order_def ids by (simp only: map_map comp_def)
qed

lemma NewRunner_pass_order:
  assumes "NewRunner env cfg d o' = Inr r"
  shows "concat (map (templateConfigsFor r) (templates r))
       = declared_pass_order env (cfg_Templates (config r))"
proof -
  from assms obtain T M where i: "init_templates env (cfg_Templates cfg) [] [] = Inr (T, M)"
    and r: "templates r = T" "ctemplatesMap r = M" "config r = cfg"
    by (auto simp: NewRunner_def init_def Let_def new_map_def
        split: option.splits sum.splits prod.splits if_splits)
  have "grouped env [] [] []"
    by (simp add: grouped_def first_ids_def)
  with i have "grouped env ([] @ cfg_Templates cfg) T M"
    by (rule init_templates_grouped)
  then have "grouped env (cfg_Templates cfg) T M" by simp
  from grouped_pass_order [OF this] show ?thesis
    unfolding r templateConfigsFor_def [abs_def] r by simp
qed

lemma keeps_settings: "keeps r r' \<Longrightarrow> settings r' = settings r"
  by (simp add: keeps_def settings_def)

lemma frame_settings: "frame r r' \<Longrightarrow> settings r' = settings r"
  by (simp add: frame_def settings_def)

lemma Receive_all_settings:
  "settings (fold (\<lambda>(d, x) r'. Receive d x r') views r) = settings r"
  by (induction views arbitrary: r) (auto simp: settings_def Receive_def)

lemma select_case_settings: "settings (wake_state (select_case c ev r)) = settings r"
proof (cases ev)
  case (DataEv v vs)
  with Receive_all_settings [of "v # vs" r] show ?thesis
    by (simp add: select_case_def)
next
  case (WatcherErrEv err)
  then show ?thesis
    by (cases err) (auto simp: select_case_def settings_def push_def)
next
  case StopEv
  with Stop_keeps [of r] show ?thesis
    by (cases "Stop r") (auto simp: select_case_def dest: keeps_settings)
qed (auto simp: select_case_def settings_def push_def)

lemma Run_settings:
  assumes "Run env r = Return e r'"
  shows "settings r' = settings r"
  using assms
proof (cases rule: Run_cases)
  case (stopped err)
  from run_templates_stopped [OF stopped(1)] show ?thesis
    by (simp add: start_pass_def frame_settings)
next
  case (finished p)
  from finished(1) obtain cs where "delta (start_pass r) cs p"
    by (rule start_pass_delta)
  then have f: "settings (rn p) = settings r"
    by (simp add: delta_def start_pass_def frame_settings)
  from finish_Return [OF finished(2)] have "settings r' = settings (rn p)"
    by (auto simp: settings_def)
  with f show ?thesis by simp
qed

lemma settings_pass_order:
  assumes "settings r' = settings r"
    and "concat (map (templateConfigsFor r) (templates r))
       = declared_pass_order env (cfg_Templates (config r))"
  shows "concat (map (templateConfigsFor r') (templates r'))
       = declared_pass_order env (cfg_Templates (config r'))"
  using assms by (simp add: settings_def templateConfigsFor_def [abs_def])

lemma reachable_pass_order:
  "reachable env r \<Longrightarrow>
   concat (map (templateConfigsFor r) (templates r))
     = declared_pass_order env (cfg_Templates (config r))"
proof (induction rule: reachable.induct)
  case (reach_new cfg dry' once' r)
  then show ?case by (rule NewRunner_pass_order)
next
  case (reach_top r c evs)
  from keeps_settings [OF loop_top_keeps] reach_top.IH show ?case by (rule settings_pass_order)
next
  case (reach_select r c ev)
  from select_case_settings reach_select.IH show ?case by (rule settings_pass_order)
next
  case (reach_Run r e r')
  from Run_settings [OF reach_Run.hyps(2)] reach_Run.IH show ?case by (rule settings_pass_order)
next
  case (reach_Stop r u r')
  from keeps_settings [OF Stop_keeps(1) [OF reach_Stop.hyps(2)]] reach_Stop.IH show ?case
    by (rule settings_pass_order)
next
  case (reach_RenderEvents r)
  from keeps_settings [OF RenderEvents_keeps] reach_RenderEvents.IH show ?case
    by (rule settings_pass_order)
next
  case (reach_read r)
  then show ?case by (simp add: templateConfigsFor_def [abs_def])
qed

subsection \<open>The example, evaluated\<close>

lemmas example_defs =
  example_env_def example_runner_def example_config_def example_template_def web_def

lemma example_new: "NewRunner example_env example_config False False = Inr example_runner"
  by (simp add: NewRunner_def init_def example_defs new_map_def empty_memory_def fun_upd_def)

lemma example_reachable: "reachable example_env example_runner"
  using example_new by (rule reach_new)

subsection \<open>Unwatched dependencies (C1)\<close>

text \<open>
  C1, as the code has it. For a template that is evaluated in the pass, \<open>missing\<close> is
  what the evaluator reports plus, for a leader, the used dependencies the watcher does
  not watch, and \<open>unwatched\<close> is the part of \<open>missing\<close> the watcher does not watch.
  The watcher is then subscribed to exactly those unwatched dependencies for which
  this agent is the leader or that cannot be shared. Whenever \<open>unwatched\<close> is not
  empty the template is skipped for the rest of the pass: the pass goes on with one
  more call in its history (the evaluation), the new subscriptions and the used
  dependencies in \<open>depsMap\<close>, and with nothing rendered, no render event marked and
  no command added. This holds whether or not a dependency was added to the watcher.
\<close>

theorem unwatched_subscribed_and_skipped:
  assumes "\<not> (once (rn p) \<and> event_of (rn p) (ID tmpl) \<noteq> None)"
    and "Execute env (calls (rn p)) tmpl (brain (rn p)) = Inr result"
    and "isLeader = (if dedup (rn p) then IsLeader env (calls (rn p)) tmpl else True)"
    and "missing = Missing result
           @ filter (\<lambda>d. isLeader \<and> \<not> Watching (watcher (rn p)) d) (Used result)"
    and "unwatched = filter (\<lambda>d. \<not> Watching (watcher (rn p)) d) missing"
  shows "(\<forall>p'. run_template env tmpl p = Inr p' \<longrightarrow>
            watcher (rn p') =
              watcher (rn p) \<union> HashCode ` {d \<in> set unwatched. isLeader \<or> \<not> CanShare d})
       \<and> (unwatched \<noteq> [] \<longrightarrow>
            run_template env tmpl p =
              Inr (p\<lparr>rn := (rn p)
                      \<lparr>calls := calls (rn p) @ [ExecuteCall tmpl (Inr result)],
                       watcher := watcher (rn p)
                         \<union> HashCode ` {d \<in> set unwatched. isLeader \<or> \<not> CanShare d}\<rparr>,
                    depsMap := fold add_dep (Used result) (depsMap p)\<rparr>))"
proof -
  define p1 where "p1 = p\<lparr>rn := (rn p)\<lparr>calls := calls (rn p) @ [ExecuteCall tmpl (Inr result)]\<rparr>,
               depsMap := fold add_dep (Used result) (depsMap p)\<rparr>"
  note eq = run_template_evaluated [OF assms p1_def]
  have skip: "unwatched \<noteq> [] \<longrightarrow>
            run_template env tmpl p =
              Inr (p\<lparr>rn := (rn p)
                      \<lparr>calls := calls (rn p) @ [ExecuteCall tmpl (Inr result)],
                       watcher := watcher (rn p)
                         \<union> HashCode ` {d \<in> set unwatched. isLeader \<or> \<not> CanShare d}\<rparr>,
                    depsMap := fold add_dep (Used result) (depsMap p)\<rparr>)"
    unfolding eq by (simp add: p1_def)
  have "watcher (rn p') =
          watcher (rn p) \<union> HashCode ` {d \<in> set unwatched. isLeader \<or> \<not> CanShare d}"
    if run: "run_template env tmpl p = Inr p'" for p'
  proof (cases "unwatched = []")
    case False
    with run skip show ?thesis by auto
  next
    case True
    show ?thesis
    proof (cases "missing = []")
      case False
      with True run eq have "p' = p1" by simp
      with True show ?thesis by (simp add: p1_def)
    next
      case m: True
      with True run eq have "render_template env tmpl isLeader result p1 = Inr p'" by simp
      from render_template_watcher [OF this] True show ?thesis
        by (simp add: p1_def)
    qed
  qed
  with skip show ?thesis by blast
qed

text \<open>
  In the example the runner is the leader, the dependency \<^verbatim>\<open>svc/web\<close> is missing
  and not watched: it is subscribed and the template is skipped.
\<close>

theorem unwatched_subscribed_and_skipped_witness:
  "run_template example_env (Template ''in.tpl'') (start_pass example_runner)
     = Inr ((start_pass example_runner)
         \<lparr>rn := example_runner
            \<lparr>calls := [ExecuteCall (Template ''in.tpl'')
                        (Inr \<lparr>Used = [web], Missing = [web], Output = ''''\<rparr>)],
             watcher := {''svc/web''}\<rparr>,
          depsMap := [(''svc/web'', web)]\<rparr>)"
proof -
  have 1: "\<not> (once (rn (start_pass example_runner))
      \<and> event_of (rn (start_pass example_runner)) (ID (Template ''in.tpl'')) \<noteq> None)"
    by (simp add: start_pass_def example_defs)
  have 2: "Execute example_env (calls (rn (start_pass example_runner))) (Template ''in.tpl'')
      (brain (rn (start_pass example_runner)))
      = Inr \<lparr>Used = [web], Missing = [web], Output = ''''\<rparr>"
    by (simp add: start_pass_def example_defs)
  show ?thesis
    using unwatched_subscribed_and_skipped [OF 1 2 refl refl refl]
    by (simp add: start_pass_def example_defs Watching_def add_dep_def)
qed

text \<open>
  C1 as stated fails where it says "exactly when": a follower (the de-duplication
  manager is on and this agent is not the leader) whose template misses the shareable
  dependency \<^verbatim>\<open>svc/web\<close>, which the watcher does not watch, adds nothing to the
  watcher, and the template is skipped all the same, although a file sink that would
  render is at hand.
\<close>

theorem skipped_with_nothing_subscribed_counterexample:
  "dedup (example_runner\<lparr>dedup := True\<rparr>)
   \<and> \<not> IsLeader example_env [] (Template ''in.tpl'')
   \<and> CanShare web \<and> watcher (example_runner\<lparr>dedup := True\<rparr>) = {}
   \<and> run_template example_env (Template ''in.tpl'') (start_pass (example_runner\<lparr>dedup := True\<rparr>))
       = Inr ((start_pass (example_runner\<lparr>dedup := True\<rparr>))
           \<lparr>rn := example_runner
              \<lparr>dedup := True,
               calls := [ExecuteCall (Template ''in.tpl'')
                          (Inr \<lparr>Used = [web], Missing = [web], Output = ''''\<rparr>)]\<rparr>,
            depsMap := [(''svc/web'', web)]\<rparr>)"
  by (simp add: example_defs start_pass_def run_template_def event_of_def Let_def
      Watching_def subscribe_def Add_def)

subsection \<open>The end of a render pass (C3)\<close>

lemma example_pass1:
  "run_templates example_env (templates example_runner) (start_pass example_runner)
   = Inr ((start_pass example_runner)
       \<lparr>rn := example_runner
          \<lparr>calls := [ExecuteCall (Template ''in.tpl'')
                      (Inr \<lparr>Used = [web], Missing = [web], Output = ''''\<rparr>)],
           watcher := {''svc/web''}\<rparr>,
        depsMap := [(''svc/web'', web)]\<rparr>)"
  by (simp add: example_defs start_pass_def run_template_def event_of_def Let_def
      Watching_def subscribe_def Add_def)

lemma example_Run1:
  "Run example_env example_runner
   = Return None (example_runner
          \<lparr>calls := [ExecuteCall (Template ''in.tpl'')
                      (Inr \<lparr>Used = [web], Missing = [web], Output = ''''\<rparr>)],
           watcher := {''svc/web''}, dependencies := [(''svc/web'', web)]\<rparr>)"
  unfolding Run_def example_pass1
  by (simp add: finish_def diffAndUpdateDeps_def start_pass_def example_defs Let_def)


lemmas retire_defs = retire_env_def retire_runner_def dep_a_def dep_b_def

lemma example_ready_reachable: "reachable example_env example_ready"
proof -
  have "reachable example_env (example_runner
          \<lparr>calls := [ExecuteCall (Template ''in.tpl'')
                      (Inr \<lparr>Used = [web], Missing = [web], Output = ''''\<rparr>)],
           watcher := {''svc/web''}, dependencies := [(''svc/web'', web)]\<rparr>)"
    using example_reachable example_Run1 by (rule reach_Run)
  from reach_select [OF this, of False "DataEv (web, ''v1'') []"] show ?thesis
    by (simp add: select_case_def Receive_def Remember_def example_ready_def example_defs)
qed

lemma retire_reachable: "reachable retire_env retire_runner"
proof -
  have new: "NewRunner retire_env example_config False False = Inr example_runner"
    by (simp add: NewRunner_def init_def example_defs retire_env_def new_map_def
        empty_memory_def fun_upd_def)
  have run: "Run retire_env example_runner
     = Return None (example_runner
          \<lparr>calls := [ExecuteCall (Template ''in.tpl'')
                   (Inr \<lparr>Used = [dep_a, dep_b], Missing = [dep_a, dep_b], Output = ''''\<rparr>)],
           watcher := {''key/a'', ''key/b''},
           dependencies := [(''key/a'', dep_a), (''key/b'', dep_b)]\<rparr>)"
    by (simp add: Run_def finish_def diffAndUpdateDeps_def start_pass_def example_defs
        retire_defs run_template_def event_of_def Let_def Watching_def subscribe_def Add_def
        insert_commute)
  from reach_select [OF reach_Run [OF reach_new [OF new] run], of False
      "DataEv (dep_a, ''1'') [(dep_b, ''2'')]"]
  show ?thesis
    by (simp add: select_case_def Receive_def Remember_def retire_defs example_defs)
qed

lemma retire_pass:
  "run_templates retire_env (templates retire_runner) (start_pass retire_runner)
   = Inr \<lparr>rn = retire_runner
            \<lparr>calls := calls retire_runner @
               [ExecuteCall (Template ''in.tpl'') (Inr \<lparr>Used = [dep_a], Missing = [], Output = ''1''\<rparr>),
                RenderCall (Template ''in.tpl'') example_template
                  \<lparr>in_Backup = False, Contents = ''1'', Dry = False, Path = ''/tmp/out'',
                   in_Perms = 420\<rparr>
                  (Inr \<lparr>WouldRender = True, DidRender = True\<rparr>)],
             mem := \<lparr>events = (\<lambda>a. \<lparr>LastWouldRender = 0, LastDidRender = 0\<rparr>)
                       (0 := \<lparr>LastWouldRender = 3, LastDidRender = 3\<rparr>),
                     next_event = 1, maps = (\<lambda>a. [])(0 := [(''in.tpl'', 0)]), next_map = 1\<rparr>\<rparr>,
          wouldRenderAny = True, renderedAny = True, commands = [example_template],
          depsMap = [(''key/a'', dep_a)]\<rparr>"
  by (simp add: start_pass_def example_defs retire_defs run_template_def render_template_def
      after_render_def markRenderTime_def new_event_def map_store_def
      templateConfigsFor_def event_of_def Let_def Watching_def)

lemma retire_Run: "Run retire_env retire_runner = Return None retire_done"
  unfolding Run_def retire_pass
  by (simp add: finish_def diffAndUpdateDeps_def example_defs retire_defs Let_def
      try_send_def spawnChild_def Remove_def Forget_def insert_Diff_if retire_done_def)


lemma retire_Run_facts:
  obtains e r' where
    "Run retire_env retire_runner = Return e r'" "e = None"
    "dependencies r' = [(''key/a'', dep_a)]" "watcher r' = {''key/a''}"
    "brain r' = [''key/a'' \<mapsto> ''1'']" "renderedCh r' = \<lparr>cap = 1, buffered = 1\<rparr>"
    "calls r' = calls retire_runner @
       [ExecuteCall (Template ''in.tpl'') (Inr \<lparr>Used = [dep_a], Missing = [], Output = ''1''\<rparr>),
        RenderCall (Template ''in.tpl'') example_template
          \<lparr>in_Backup = False, Contents = ''1'', Dry = False, Path = ''/tmp/out'',
           in_Perms = 420\<rparr>
          (Inr \<lparr>WouldRender = True, DidRender = True\<rparr>),
        SpawnCall ''echo x'' (Inr (Child [''echo x'']))]"
  using retire_Run by (simp add: retire_done_def)


subsection \<open>The channel of render notifications (C8)\<close>




subsection \<open>The commands of a render pass (C4)\<close>

lemma spawned_SpawnCalls:
  "concat (map spawned (map (\<lambda>(t, res). SpawnCall (Command t) res) (zip ts results)))
     = zip (map Command ts) results"
  by (induction ts results rule: list_induct2') simp_all

text \<open>
  When the loop over the commands comes to its end, every command has been spawned, in
  order: each result is the one of \<^verbatim>\<open>spawnChild\<close> at the history made of the spawns
  before it, and the errors of all of them are collected.
\<close>

lemma exec_commands_results:
  "exec_commands env ts errs r = Inr (errs', r') \<Longrightarrow>
   \<exists>results. length results = length ts
     \<and> r' = r\<lparr>calls := calls r @ map (\<lambda>(t, res). SpawnCall (Command t) res) (zip ts results)\<rparr>
     \<and> errs' = errs @ spawn_errors results
     \<and> (\<forall>i < length ts.
           spawnChild env
             (calls r @ map (\<lambda>(t, res). SpawnCall (Command t) res) (zip (take i ts) (take i results)))
             (Command (ts ! i)) = Inr (results ! i))"
proof (induction ts arbitrary: errs r)
  case Nil
  then show ?case by (simp add: spawn_errors_def)
next
  case (Cons t ts)
  from Cons.prems obtain res where res: "spawnChild env (calls r) (Command t) = Inr res"
    and rest: "exec_commands env ts
            (case res of Inl err \<Rightarrow> errs @ [err] | Inr c \<Rightarrow> errs)
            (r\<lparr>calls := calls r @ [SpawnCall (Command t) res]\<rparr>) = Inr (errs', r')"
    by (auto split: sum.splits)
  let ?r1 = "r\<lparr>calls := calls r @ [SpawnCall (Command t) res]\<rparr>"
  from Cons.IH [OF rest] obtain results where results: "length results = length ts"
     "r' = ?r1\<lparr>calls := calls ?r1
           @ map (\<lambda>(t, res). SpawnCall (Command t) res) (zip ts results)\<rparr>"
     "errs' = (case res of Inl err \<Rightarrow> errs @ [err] | Inr c \<Rightarrow> errs) @ spawn_errors results"
     "\<And>i. i < length ts \<Longrightarrow>
           spawnChild env
             (calls ?r1 @ map (\<lambda>(t, res). SpawnCall (Command t) res) (zip (take i ts) (take i results)))
             (Command (ts ! i)) = Inr (results ! i)"
    by blast
  show ?case
  proof (intro exI [of _ "res # results"] conjI allI impI)
    show "length (res # results) = length (t # ts)"
      using results(1) by simp
    show "r' = r\<lparr>calls := calls r
        @ map (\<lambda>(t, res). SpawnCall (Command t) res) (zip (t # ts) (res # results))\<rparr>"
      using results(2) by simp
    show "errs' = errs @ spawn_errors (res # results)"
      using results(3) by (cases res) (simp_all add: spawn_errors_def)
    fix i assume i: "i < length (t # ts)"
    show "spawnChild env
             (calls r @ map (\<lambda>(t, res). SpawnCall (Command t) res)
                (zip (take i (t # ts)) (take i (res # results))))
             (Command ((t # ts) ! i)) = Inr ((res # results) ! i)"
    proof (cases i)
      case 0
      with res show ?thesis by simp
    next
      case (Suc j)
      with i have "j < length ts" by simp
      from results(4) [OF this] Suc show ?thesis by simp
    qed
  qed
qed

text \<open>
  The loop over the commands does not come to its end when the parser finds no word in
  a command: \<^verbatim>\<open>args[0]\<close> is then out of range, and the commands after this one are
  not spawned.
\<close>

lemma exec_commands_faults:
  "exec_commands env ts errs r = Inl (pn, r') \<Longrightarrow>
   pn = IndexOutOfRange
   \<and> (\<exists>n results. n < length ts \<and> length results = n
        \<and> r' = r\<lparr>calls := calls r
             @ map (\<lambda>(t, res). SpawnCall (Command t) res) (zip (take n ts) results)\<rparr>
        \<and> Parse env (calls r') (Command (ts ! n)) = Inr [])"
proof (induction ts arbitrary: errs r)
  case Nil
  then show ?case by simp
next
  case (Cons t ts)
  show ?case
  proof (cases "spawnChild env (calls r) (Command t)")
    case (Inl pn')
    with Cons.prems have eq: "pn = pn'" "r' = r" by simp_all
    from Inl have "pn' = IndexOutOfRange \<and> Parse env (calls r) (Command t) = Inr []"
      by (auto simp: spawnChild_def split: sum.splits list.splits option.splits)
    with eq show ?thesis
      by (intro conjI exI [of _ 0] exI [of _ "[]"]) simp_all
  next
    case (Inr res)
    let ?r1 = "r\<lparr>calls := calls r @ [SpawnCall (Command t) res]\<rparr>"
    from Inr Cons.prems have "exec_commands env ts
            (case res of Inl err \<Rightarrow> errs @ [err] | Inr c \<Rightarrow> errs) ?r1 = Inl (pn, r')"
      by simp
    from Cons.IH [OF this] obtain n results where pn: "pn = IndexOutOfRange"
      and n: "n < length ts" "length results = n"
        "r' = ?r1\<lparr>calls := calls ?r1
             @ map (\<lambda>(t, res). SpawnCall (Command t) res) (zip (take n ts) results)\<rparr>"
        "Parse env (calls r') (Command (ts ! n)) = Inr []"
      by blast
    show ?thesis
      using pn n
      by (intro conjI exI [of _ "Suc n"] exI [of _ "res # results"]) simp_all
  qed
qed

lemma finish_spawns:
  assumes "finish env p = Return e r'"
  shows "\<exists>results rerrs.
      length results = length (commands p)
    \<and> concat (map spawned (new_calls (rn p) r')) = zip (map Command (commands p)) results
    \<and> (\<forall>i < length (commands p).
          spawnChild env
            (calls (rn p) @ map (\<lambda>(t, res). SpawnCall (Command t) res)
               (zip (take i (commands p)) (take i results)))
            (Command (commands p ! i)) = Inr (results ! i))
    \<and> e = (if spawn_errors results @ rerrs = [] then None
            else Some (MultiError (spawn_errors results @ rerrs)))"
proof -
  define r2 where "r2 = diffAndUpdateDeps (depsMap p)
     (if wouldRenderAny p \<or> renderedAny p
      then (rn p)\<lparr>renderedCh := try_send (renderedCh (rn p))\<rparr> else rn p)"
  have c2: "calls r2 = calls (rn p)"
    unfolding r2_def diffAndUpdateDeps_eq by simp
  from assms obtain errs r3 where ex: "exec_commands env (commands p) [] r2 = Inr (errs, r3)"
    and fin: "(let (errs', r4) =
                    (if renderedAny p then
                       (case child r3 of
                          Some c \<Rightarrow>
                            (let e = ChildReload env (calls r3) c
                             in (case e of Some err \<Rightarrow> errs @ [err] | None \<Rightarrow> errs,
                                 r3\<lparr>calls := calls r3 @ [ReloadCall c e]\<rparr>))
                        | None \<Rightarrow> (errs, r3))
                     else (errs, r3))
              in Return (if errs' \<noteq> [] then Some (MultiError errs') else None) r4)
          = Return e r'"
    unfolding finish_def Let_def r2_def [symmetric]
    by (cases "exec_commands env (commands p) [] r2") (auto simp: Let_def)
  from exec_commands_results [OF ex] obtain results where results:
    "length results = length (commands p)"
    "r3 = r2\<lparr>calls := calls r2 @ map (\<lambda>(t, res). SpawnCall (Command t) res) (zip (commands p) results)\<rparr>"
    "errs = spawn_errors results"
    "\<And>i. i < length (commands p) \<Longrightarrow>
          spawnChild env
            (calls r2 @ map (\<lambda>(t, res). SpawnCall (Command t) res)
               (zip (take i (commands p)) (take i results)))
            (Command (commands p ! i)) = Inr (results ! i)"
    by auto
  from fin obtain rl rerrs where rl: "calls r' = calls r3 @ rl" "concat (map spawned rl) = []"
    and e: "e = (if errs @ rerrs = [] then None else Some (MultiError (errs @ rerrs)))"
  proof (cases "renderedAny p \<and> child r3 \<noteq> None")
    case False
    with fin have "calls r' = calls r3 @ []" "e = (if errs @ [] = [] then None else Some (MultiError (errs @ [])))"
      by (auto split: if_splits option.splits)
    with that show ?thesis by simp
  next
    case True
    then obtain c where c: "child r3 = Some c" by auto
    define x where "x = ChildReload env (calls r3) c"
    from True c fin have "calls r' = calls r3 @ [ReloadCall c x]"
      "e = (if errs @ (case x of Some err \<Rightarrow> [err] | None \<Rightarrow> []) = [] then None
            else Some (MultiError (errs @ (case x of Some err \<Rightarrow> [err] | None \<Rightarrow> []))))"
      by (auto simp: Let_def x_def split: option.splits)
    with that show ?thesis by simp
  qed
  have "concat (map spawned (new_calls (rn p) r'))
      = concat (map spawned (map (\<lambda>(t, res). SpawnCall (Command t) res) (zip (commands p) results)))
        @ concat (map spawned rl)"
    unfolding new_calls_def rl(1) results(2) by (simp add: c2)
  then have s: "concat (map spawned (new_calls (rn p) r')) = zip (map Command (commands p)) results"
    unfolding rl(2) spawned_SpawnCalls by simp
  show ?thesis
    using results(1) s results(4) e unfolding c2 results(3) by blast
qed

lemma finish_faults:
  assumes "finish env p = Panic pn r'"
  shows "pn = IndexOutOfRange
    \<and> (\<exists>n results. n < length (commands p) \<and> length results = n
         \<and> concat (map spawned (new_calls (rn p) r')) = zip (map Command (take n (commands p))) results
         \<and> Parse env (calls r') (Command (commands p ! n)) = Inr [])"
proof -
  define r2 where "r2 = diffAndUpdateDeps (depsMap p)
     (if wouldRenderAny p \<or> renderedAny p
      then (rn p)\<lparr>renderedCh := try_send (renderedCh (rn p))\<rparr> else rn p)"
  have c2: "calls r2 = calls (rn p)"
    unfolding r2_def diffAndUpdateDeps_eq by simp
  from assms have ex: "exec_commands env (commands p) [] r2 = Inl (pn, r')"
    unfolding finish_def Let_def r2_def [symmetric]
    by (cases "exec_commands env (commands p) [] r2") (auto simp: Let_def split: prod.splits)
  from exec_commands_faults [OF ex] obtain n results where pn: "pn = IndexOutOfRange"
    and n: "n < length (commands p)" "length results = n"
      "r' = r2\<lparr>calls := calls r2
             @ map (\<lambda>(t, res). SpawnCall (Command t) res) (zip (take n (commands p)) results)\<rparr>"
      "Parse env (calls r') (Command (commands p ! n)) = Inr []"
    by blast
  have "concat (map spawned (new_calls (rn p) r'))
      = concat (map spawned (map (\<lambda>(t, res). SpawnCall (Command t) res)
          (zip (take n (commands p)) results)))"
    unfolding new_calls_def n(3) by (simp add: c2)
  then have "concat (map spawned (new_calls (rn p) r'))
      = zip (map Command (take n (commands p))) results"
    unfolding spawned_SpawnCalls by simp
  with pn n show ?thesis by blast
qed

text \<open>
  Take a render pass of a runner in a state it can be in, whose loop over the templates
  comes to its end with the local variables \<open>p\<close>. The accumulated commands are the first
  occurrences, by command string, of the configurations for which a call of the file sink
  in this pass reported \<^verbatim>\<open>DidRender\<close>, that have a command, outside dry mode, in the
  order of these calls. So every accumulated configuration has a non-empty command and a
  call of the file sink that reported \<^verbatim>\<open>DidRender\<close>, and the runner is not in dry mode;
  no two of them have the same command string; and their order is the order of the pass:
  the templates in the order in which they are first declared, and for each template its
  configurations in the order in which they are declared.
\<close>

lemma commands_of_a_pass:
  assumes "reachable env r"
    and "run_templates env (templates r) (start_pass r) = Inr p"
  shows "commands p = first_occurrences (concat (map (eligible (dry r)) (new_calls r (rn p))))
       \<and> (\<forall>tc \<in> set (commands p).
             \<not> dry r \<and> Command tc \<noteq> '''' \<and>
             (\<exists>t i res. RenderCall t tc i (Inr res) \<in> set (new_calls r (rn p)) \<and> DidRender res))
       \<and> distinct (map Command (commands p))
       \<and> subseq (commands p) (declared_pass_order env (cfg_Templates (config r)))"
proof -
  from assms(2) obtain cs where d: "delta (start_pass r) cs p"
    and sub: "subseq (concat (map rendered_config cs))
                (concat (map (templateConfigsFor r) (templates r)))"
    and cs: "cs = new_calls r (rn p)"
    by (rule start_pass_delta)
  let ?E = "concat (map (eligible (dry r)) cs)"
  have 1: "commands p = first_occurrences ?E"
    using d by (simp add: delta_def start_pass_def commands_first_occurrences)
  have 2: "\<not> dry r \<and> Command tc \<noteq> '''' \<and>
             (\<exists>t i res. RenderCall t tc i (Inr res) \<in> set cs \<and> DidRender res)"
    if "tc \<in> set (commands p)" for tc
  proof -
    from that have "tc \<in> set ?E"
      unfolding 1 using first_occurrences_subset by blast
    then show ?thesis by (rule eligible_member)
  qed
  have 3: "distinct (map Command (commands p))"
    unfolding 1 by (rule distinct_first_occurrences)
  have "subseq (commands p) ?E"
    unfolding 1 by (rule subseq_first_occurrences)
  also have "subseq ?E (concat (map rendered_config cs))"
    by (rule subseq_eligible)
  also note sub
  also note reachable_pass_order [OF assms(1)]
  finally have 4: "subseq (commands p) (declared_pass_order env (cfg_Templates (config r)))" .
  from 1 2 3 4 show ?thesis
    unfolding cs by blast
qed

text \<open>
  When the pass returns, every accumulated command has been spawned, one after the other
  in the order of the list, whatever the results of the earlier ones, and the error that
  \<^verbatim>\<open>Run\<close> returns holds the errors of all of them, in order, before the error of the
  reload signal if there is one.
\<close>

lemma commands_spawned:
  assumes "run_templates env (templates r) (start_pass r) = Inr p"
    and "Run env r = Return e r'"
  shows "\<exists>results rerrs.
      length results = length (commands p)
    \<and> concat (map spawned (new_calls (rn p) r')) = zip (map Command (commands p)) results
    \<and> (\<forall>i < length (commands p).
          spawnChild env
            (calls (rn p) @ map (\<lambda>(t, res). SpawnCall (Command t) res)
               (zip (take i (commands p)) (take i results)))
            (Command (commands p ! i)) = Inr (results ! i))
    \<and> e = (if spawn_errors results @ rerrs = [] then None
            else Some (MultiError (spawn_errors results @ rerrs)))"
proof -
  from assms have "finish env p = Return e r'"
    by (simp add: Run_def)
  then show ?thesis by (rule finish_spawns)
qed

text \<open>
  A pass faults only in the loop over the commands, at a command in which the parser
  finds no word: the commands before it have been spawned, this one and the ones after it
  have not, and no error is returned.
\<close>

lemma commands_fault:
  assumes "Run env r = Panic pn r'"
  shows "pn = IndexOutOfRange
    \<and> (\<exists>p n results. run_templates env (templates r) (start_pass r) = Inr p
         \<and> n < length (commands p) \<and> length results = n
         \<and> concat (map spawned (new_calls (rn p) r')) = zip (map Command (take n (commands p))) results
         \<and> Parse env (calls r') (Command (commands p ! n)) = Inr [])"
proof (cases "run_templates env (templates r) (start_pass r)")
  case (Inl a)
  with assms show ?thesis
    by (cases a) (simp add: Run_def)
next
  case (Inr p)
  with assms have "finish env p = Panic pn r'"
    by (simp add: Run_def)
  from finish_faults [OF this] Inr show ?thesis by blast
qed

lemmas apart_defs = apart_runner_def apart_config_def apart_env_def apart_x_def apart_y_def
  apart_z_def example_env_def

lemma apart_fields [simp]:
  "Source apart_x = ''a.tpl''" "Destination apart_x = ''/tmp/x''" "Backup apart_x = False"
  "Perms apart_x = 420" "Command apart_x = ''echo x''"
  "Source apart_y = ''b.tpl''" "Destination apart_y = ''/tmp/y''" "Backup apart_y = False"
  "Perms apart_y = 420" "Command apart_y = ''echo y''"
  "Source apart_z = ''a.tpl''" "Destination apart_z = ''/tmp/z''" "Backup apart_z = False"
  "Perms apart_z = 420" "Command apart_z = ''echo z''"
  "Source blank_x = ''a.tpl''" "Destination blank_x = ''/tmp/x''" "Backup blank_x = False"
  "Perms blank_x = 420" "Command blank_x = '' ''"
  by (simp_all add: apart_x_def apart_y_def apart_z_def blank_x_def)

lemma Let_weak_cong: "s = t \<Longrightarrow> Let s f = Let t f"
  by simp

lemma apart_new: "NewRunner apart_env apart_config False False = Inr apart_runner"
  by (simp add: NewRunner_def init_def apart_defs Let_def new_map_def empty_memory_def fun_upd_def)

text \<open>
  In the example of the configurations declared apart, the order of the pass puts the
  third configuration before the second.
\<close>

lemma apart_declared:
  "declared_pass_order apart_env (cfg_Templates apart_config) = [apart_x, apart_z, apart_y]"
  by (simp add: declared_pass_order_def first_ids_def add_id_def template_id_def apart_defs)

lemma apart_pass:
  "\<exists>p. run_templates apart_env (templates apart_runner) (start_pass apart_runner) = Inr p
     \<and> commands p = [apart_x, apart_z, apart_y]"
  by (simp add: start_pass_def apart_runner_def apart_env_def example_env_def
      run_template_def render_template_def
      after_render_def markRenderTime_def new_event_def map_store_def
      templateConfigsFor_def event_of_def Let_def Watching_def cong: Let_weak_cong)

lemma apart_Run:
  "\<exists>r'. Run apart_env apart_runner
          = Return (Some (MultiError [Wrap ''error starting child'' (Err ''exit status 1'')])) r'
     \<and> concat (map spawned (new_calls apart_runner r')) =
          [(''echo x'', Inr (Child [''echo x''])),
           (''echo z'', Inl (Wrap ''error starting child'' (Err ''exit status 1''))),
           (''echo y'', Inr (Child [''echo y'']))]"
  by (simp add: Run_def start_pass_def apart_runner_def apart_env_def example_env_def
      run_template_def render_template_def
      after_render_def markRenderTime_def new_event_def map_store_def
      templateConfigsFor_def event_of_def Let_def Watching_def
      finish_def diffAndUpdateDeps_def try_send_def spawnChild_def new_calls_def
      cong: Let_weak_cong)

text \<open>
  C4 does not hold of the code where the configurations of one template are declared
  apart. In the example the configurations are declared with the commands
  \<^verbatim>\<open>echo x\<close>, \<^verbatim>\<open>echo y\<close>, \<^verbatim>\<open>echo z\<close>, in this order, the first and the third
  for the same template. \<^verbatim>\<open>init\<close> files the third configuration under the template
  of the first, and the first pass, which renders all three, accumulates and spawns
  \<^verbatim>\<open>echo x\<close>, \<^verbatim>\<open>echo z\<close>, \<^verbatim>\<open>echo y\<close>: the accumulated list is not in the
  order of the declaration. The rest of the claim shows in the example: the three commands
  are spawned one after the other, the command after the failing one is still spawned,
  and the error of the failing one is returned.
\<close>

theorem commands_run_out_of_declared_order:
  "NewRunner apart_env apart_config False False = Inr apart_runner
   \<and> map Command (cfg_Templates apart_config) = [''echo x'', ''echo y'', ''echo z'']
   \<and> (\<exists>p. run_templates apart_env (templates apart_runner) (start_pass apart_runner) = Inr p
         \<and> commands p = [apart_x, apart_z, apart_y])
   \<and> (\<exists>r'. Run apart_env apart_runner
              = Return (Some (MultiError [Wrap ''error starting child'' (Err ''exit status 1'')])) r'
         \<and> concat (map spawned (new_calls apart_runner r')) =
              [(''echo x'', Inr (Child [''echo x''])),
               (''echo z'', Inl (Wrap ''error starting child'' (Err ''exit status 1''))),
               (''echo y'', Inr (Child [''echo y'']))])
   \<and> \<not> subseq [apart_x, apart_z, apart_y] (cfg_Templates apart_config)"
proof -
  have "map Command (cfg_Templates apart_config) = [''echo x'', ''echo y'', ''echo z'']"
    by (simp add: apart_config_def)
  moreover have "\<not> subseq [apart_x, apart_z, apart_y] (cfg_Templates apart_config)"
    by (simp add: apart_config_def apart_x_def apart_y_def apart_z_def)
  ultimately show ?thesis
    using apart_new apart_pass apart_Run by simp
qed

text \<open>
  In the example of the command of blanks, the pass renders both templates and
  accumulates both commands; the first spawn faults, and the second command is never
  spawned.
\<close>

lemma blank_new: "NewRunner blank_env blank_config False False = Inr blank_runner"
  by (simp add: NewRunner_def init_def blank_runner_def blank_config_def blank_env_def apart_env_def
      example_env_def Let_def new_map_def empty_memory_def fun_upd_def)

lemma blank_pass:
  "\<exists>p. run_templates blank_env (templates blank_runner) (start_pass blank_runner) = Inr p
     \<and> commands p = [blank_x, apart_y]"
  by (simp add: start_pass_def blank_runner_def blank_env_def apart_env_def example_env_def
      run_template_def render_template_def
      after_render_def markRenderTime_def new_event_def map_store_def
      templateConfigsFor_def event_of_def Let_def Watching_def cong: Let_weak_cong)

lemma blank_command_faults:
  "\<exists>r'. Run blank_env blank_runner = Panic IndexOutOfRange r'
     \<and> concat (map spawned (new_calls blank_runner r')) = []"
  by (simp add: Run_def start_pass_def blank_runner_def blank_env_def apart_env_def example_env_def
      run_template_def render_template_def
      after_render_def markRenderTime_def new_event_def map_store_def
      templateConfigsFor_def event_of_def Let_def Watching_def
      finish_def diffAndUpdateDeps_def try_send_def spawnChild_def new_calls_def
      cong: Let_weak_cong)

subsection \<open>Receiving data (C10)\<close>

lemma Receive_dependencies [simp]: "dependencies (Receive d x r) = dependencies r"
  by (simp add: Receive_def)

lemma Receive_all_untracked:
  "map_of (dependencies r) k = None \<Longrightarrow>
   brain (fold (\<lambda>(d, x) r'. Receive d x r') views r) k = brain r k"
proof (induction views arbitrary: r)
  case Nil
  then show ?case by simp
next
  case (Cons v views)
  obtain d x where v: "v = (d, x)" by (cases v)
  have "brain (Receive d x r) k = brain r k"
    using Cons.prems by (auto simp: Receive_def Remember_def)
  moreover have "map_of (dependencies (Receive d x r)) k = None"
    using Cons.prems by simp
  ultimately show ?case
    using Cons.IH [of "Receive d x r"] v by simp
qed

text \<open>
  C10. \<^verbatim>\<open>Receive\<close> stores the data in the brain, under the hash code of the
  dependency, when this hash code is a key of the tracked dependencies, and otherwise
  leaves the runner as it is. So whatever views the main loop drains from the data
  channel, the brain stays as it is at every key that is not tracked; and since in the
  states a runner can be in the brain has no data at such a key (in particular for a
  dependency that the last render pass retired), it has none afterwards.
\<close>

theorem Receive_only_tracked:
  "Receive d x r =
     (if map_of (dependencies r) (HashCode d) \<noteq> None
      then r\<lparr>brain := (brain r)(HashCode d \<mapsto> x)\<rparr> else r)
   \<and> (map_of (dependencies r) k = None \<longrightarrow>
        brain (fold (\<lambda>(d, x) r'. Receive d x r') views r) k = brain r k)
   \<and> (reachable env r \<longrightarrow> map_of (dependencies r) k = None \<longrightarrow>
        brain (fold (\<lambda>(d, x) r'. Receive d x r') views r) k = None)"
proof -
  have "brain r k = None" if "reachable env r" "map_of (dependencies r) k = None"
  proof -
    from that(1) have "dom (brain r) \<subseteq> fst ` set (dependencies r)"
      using reachable_invariant by (simp add: invariant_def)
    with that(2) show ?thesis
      by (auto simp: map_of_eq_None_iff)
  qed
  then show ?thesis
    using Receive_all_untracked [of r k views]
    by (simp add: Receive_def Remember_def)
qed

text \<open>
  In the example of the retired dependency: after the pass that retires \<^verbatim>\<open>key/b\<close>,
  views for \<^verbatim>\<open>key/b\<close> and \<^verbatim>\<open>key/a\<close> that were buffered are received; the data for
  \<^verbatim>\<open>key/a\<close> is stored, the data for \<^verbatim>\<open>key/b\<close> is not.
\<close>

theorem Receive_only_tracked_witness:
  "\<exists>e r'. Run retire_env retire_runner = Return e r'
     \<and> reachable retire_env r'
     \<and> map_of (dependencies r') ''key/b'' = None
     \<and> brain retire_runner ''key/b'' = Some ''2''
     \<and> brain (fold (\<lambda>(d, x) r. Receive d x r) [(dep_b, ''9''), (dep_a, ''3'')] r') ''key/b'' = None
     \<and> brain (fold (\<lambda>(d, x) r. Receive d x r) [(dep_b, ''9''), (dep_a, ''3'')] r') ''key/a''
         = Some ''3''"
proof -
  obtain e r' where run: "Run retire_env retire_runner = Return e r'"
    and deps: "dependencies r' = [(''key/a'', dep_a)]"
    and b: "brain r' = [''key/a'' \<mapsto> ''1'']"
    by (rule retire_Run_facts)
  have reach: "reachable retire_env r'"
    using retire_reachable run by (rule reach_Run)
  have un: "map_of (dependencies r') ''key/b'' = None"
    by (simp add: deps)
  note th = Receive_only_tracked [of dep_b "''9''" r' "''key/b''"
      "[(dep_b, ''9''), (dep_a, ''3'')]" retire_env]
  from th reach un
  have 1: "brain (fold (\<lambda>(d, x) r. Receive d x r) [(dep_b, ''9''), (dep_a, ''3'')] r') ''key/b''
      = None"
    by blast
  have 2: "brain (fold (\<lambda>(d, x) r. Receive d x r) [(dep_b, ''9''), (dep_a, ''3'')] r') ''key/a''
         = Some ''3''"
    by (simp add: Receive_def Remember_def deps dep_a_def dep_b_def)
  have 3: "brain retire_runner ''key/b'' = Some ''2''"
    by (simp add: retire_runner_def)
  from run reach un 1 2 3 show ?thesis by blast
qed

subsection \<open>Errors of the watcher (C5)\<close>



subsection \<open>Stopping twice (C7)\<close>

text \<open>
  C7 does not hold of the code: \<^verbatim>\<open>Stop\<close> closes the done channel without looking
  whether it is closed, so a second \<^verbatim>\<open>Stop\<close> comes to \<^verbatim>\<open>close\<close> on a closed
  channel, which is a fault.
\<close>

theorem second_Stop_faults:
  "Stop r = Return u r' \<Longrightarrow>
   Stop r' = Panic CloseOfClosedChannel (deletePid (stopChild (stopWatcher (stopDedup r'))))"
  by (auto simp: Stop_def Let_def stopDedup_def stopWatcher_def stopChild_def deletePid_def
      split: if_splits option.splits)

theorem second_Stop_faults_witness:
  "Stop example_runner = Return () (example_runner\<lparr>DoneCh := True, calls := [WatcherStopCall]\<rparr>)
   \<and> Stop (example_runner\<lparr>DoneCh := True, calls := [WatcherStopCall]\<rparr>)
       = Panic CloseOfClosedChannel
           (example_runner\<lparr>DoneCh := True, calls := [WatcherStopCall, WatcherStopCall]\<rparr>)"
proof -
  have 1: "Stop example_runner
      = Return () (example_runner\<lparr>DoneCh := True, calls := [WatcherStopCall]\<rparr>)"
    by (simp add: Stop_def example_runner_def example_config_def stopDedup_def
        stopWatcher_def stopChild_def deletePid_def)
  show ?thesis
    using second_Stop_faults [OF 1] 1
    by (simp add: example_runner_def example_config_def stopDedup_def
        stopWatcher_def stopChild_def deletePid_def)
qed

subsection \<open>The snapshot of the render events (C9)\<close>

lemma fold_map_store_other:
  "a \<noteq> snap \<Longrightarrow>
   maps (fold (\<lambda>(k, v) m'. map_store snap k v m') kvs m) a = maps m a"
  by (induction kvs arbitrary: m) (auto simp: map_store_def)

lemma fold_map_store_fields:
  "events (fold (\<lambda>(k, v) m'. map_store snap k v m') kvs m) = events m"
  "next_event (fold (\<lambda>(k, v) m'. map_store snap k v m') kvs m) = next_event m"
  "next_map (fold (\<lambda>(k, v) m'. map_store snap k v m') kvs m) = next_map m"
  by (induction kvs arbitrary: m) (auto simp: map_store_def)

lemma map_of_snoc_fresh:
  "k \<notin> fst ` set kvs \<Longrightarrow> map_of (kvs @ [(k, v)]) = (map_of kvs)(k \<mapsto> v)"
  by (induction kvs) (auto simp: fun_eq_iff)

lemma fold_map_store_copy:
  "distinct (map fst kvs) \<Longrightarrow>
   map_of (maps (fold (\<lambda>(k, v) m'. map_store snap k v m') kvs m) snap)
     = map_of (maps m snap) ++ map_of kvs"
proof (induction kvs arbitrary: m rule: rev_induct)
  case Nil
  then show ?case by simp
next
  case (snoc kv kvs)
  obtain k v where kv: "kv = (k, v)" by (cases kv)
  from snoc.prems kv have fresh: "k \<notin> fst ` set kvs" and d: "distinct (map fst kvs)"
    by auto
  from fresh have none: "map_of kvs k = None"
    by (simp add: map_of_eq_None_iff)
  have "map_of (maps (fold (\<lambda>(k, v) m'. map_store snap k v m') (kvs @ [kv]) m) snap)
      = (map_of (maps m snap) ++ map_of kvs)(k \<mapsto> v)"
    using snoc.IH [OF d, of m] kv by (simp add: map_store_def map_of_assign)
  also have "\<dots> = map_of (maps m snap) ++ (map_of kvs)(k \<mapsto> v)"
    by simp
  also have "(map_of kvs)(k \<mapsto> v) = map_of (kvs @ [kv])"
    using map_of_snoc_fresh [OF fresh, of v] kv by simp
  finally show ?case .
qed

text \<open>
  The map of render events is an object of the store, with one entry for a key.
\<close>

lemma RenderEvents_eq:
  "RenderEvents r =
     (next_map (mem r),
      r\<lparr>mem := fold (\<lambda>(k, v) m'. map_store (next_map (mem r)) k v m')
                  (maps (mem r) (renderEvents r))
                  ((mem r)\<lparr>maps := (maps (mem r))(next_map (mem r) := []),
                           next_map := next_map (mem r) + 1\<rparr>)\<rparr>)"
  by (simp add: RenderEvents_def new_map_def)

lemma markRenderTime_existing:
  "event_of r k = Some a \<Longrightarrow>
   mem (markRenderTime env k b r) =
     (mem r)\<lparr>events := (events (mem r))
        (a := (if b then (events (mem r) a)\<lparr>LastDidRender := Now env (calls r)\<rparr>
               else (events (mem r) a)\<lparr>LastWouldRender := Now env (calls r)\<rparr>))\<rparr>"
  by (simp add: markRenderTime_def Let_def)

lemma Run_frame:
  assumes "Run env r = Return e r'"
  shows "renderEvents r' = renderEvents r
     \<and> (\<forall>a. a \<noteq> renderEvents r \<longrightarrow> maps (mem r') a = maps (mem r) a)"
  using assms
proof (cases rule: Run_cases)
  case (stopped err)
  from run_templates_stopped [OF stopped(1)] show ?thesis
    by (simp add: start_pass_def frame_def)
next
  case (finished p)
  from finished(1) obtain cs where "delta (start_pass r) cs p"
    by (rule start_pass_delta)
  then have f: "frame r (rn p)"
    by (simp add: delta_def start_pass_def)
  from finish_Return [OF finished(2)] have "mem r' = mem (rn p)" "renderEvents r' = renderEvents (rn p)"
    by auto
  with f show ?thesis
    by (simp add: frame_def)
qed

text \<open>
  C9, as the code has it. \<^verbatim>\<open>RenderEvents\<close> returns a new map object with the entries
  of the runner's map: the same keys with the same pointers, and the runner's own map and
  events are as before. Writes to the returned map (storing or deleting a key) leave the
  runner's map as it is, and a later render pass leaves the returned map as it is: no
  entry of it is added, removed or redirected. But the events the entries point to are
  the runner's own: when a later \<^verbatim>\<open>markRenderTime\<close> marks a template that has an
  entry in the returned map, the new time is written to the event this entry points to.
\<close>

theorem RenderEvents_copies_the_map_only:
  assumes "renderEvents r < next_map (mem r)"
    and "distinct (map fst (maps (mem r) (renderEvents r)))"
    and "RenderEvents r = (snap, r')"
  shows "snap \<noteq> renderEvents r' \<and> renderEvents r' = renderEvents r
       \<and> map_of (maps (mem r') snap) = event_of r
       \<and> event_of r' = event_of r \<and> events (mem r') = events (mem r)
       \<and> (\<forall>k v. maps (map_store snap k v (mem r')) (renderEvents r')
                    = maps (mem r') (renderEvents r')
                \<and> maps (map_delete snap k (mem r')) (renderEvents r')
                    = maps (mem r') (renderEvents r'))
       \<and> (\<forall>env e r''. Run env r' = Return e r'' \<longrightarrow> maps (mem r'') snap = maps (mem r') snap)
       \<and> (\<forall>env k b a. map_of (maps (mem r') snap) k = Some a \<longrightarrow>
             events (mem (markRenderTime env k b r')) a =
               (if b then (events (mem r') a)\<lparr>LastDidRender := Now env (calls r')\<rparr>
                else (events (mem r') a)\<lparr>LastWouldRender := Now env (calls r')\<rparr>))"
proof -
  let ?base = "(mem r)\<lparr>maps := (maps (mem r))(next_map (mem r) := []),
                           next_map := next_map (mem r) + 1\<rparr>"
  let ?m = "fold (\<lambda>(k, v) m'. map_store (next_map (mem r)) k v m')
                  (maps (mem r) (renderEvents r)) ?base"
  from assms(3) have snap: "snap = next_map (mem r)" and r': "r' = r\<lparr>mem := ?m\<rparr>"
    by (auto simp: RenderEvents_eq)
  have ne: "renderEvents r \<noteq> snap"
    using assms(1) snap by simp
  have 1: "snap \<noteq> renderEvents r' \<and> renderEvents r' = renderEvents r"
    using ne by (simp add: r')
  have own: "maps (mem r') (renderEvents r) = maps (mem r) (renderEvents r)"
    unfolding r' using ne by (simp add: fold_map_store_other snap)
  have 2: "map_of (maps (mem r') snap) = event_of r"
    unfolding r' snap event_of_def
    using fold_map_store_copy [OF assms(2), where snap = "next_map (mem r)" and m = ?base]
    by simp
  have 3: "event_of r' = event_of r \<and> events (mem r') = events (mem r)"
    using own by (simp add: event_of_def fun_eq_iff r' fold_map_store_fields)
  have 4: "maps (map_store snap k v (mem r')) (renderEvents r') = maps (mem r') (renderEvents r')
      \<and> maps (map_delete snap k (mem r')) (renderEvents r') = maps (mem r') (renderEvents r')"
    for k v
    using 1 by (simp add: map_store_def map_delete_def)
  have 5: "maps (mem r'') snap = maps (mem r') snap" if "Run env r' = Return e r''" for env e r''
    using Run_frame [OF that] 1 by simp
  have 6: "events (mem (markRenderTime env k b r')) a =
               (if b then (events (mem r') a)\<lparr>LastDidRender := Now env (calls r')\<rparr>
                else (events (mem r') a)\<lparr>LastWouldRender := Now env (calls r')\<rparr>)"
    if "map_of (maps (mem r') snap) k = Some a" for env k b a
  proof -
    from that 2 3 have "event_of r' k = Some a" by simp
    from markRenderTime_existing [OF this] show ?thesis by simp
  qed
  from 1 2 3 4 5 6 show ?thesis by blast
qed

lemma retire_done_RenderEvents:
  "RenderEvents retire_done =
     (1, retire_done\<lparr>mem := (mem retire_done)
            \<lparr>maps := (maps (mem retire_done))(1 := [(''in.tpl'', 0)]), next_map := 2\<rparr>\<rparr>)"
  by (simp add: RenderEvents_def new_map_def retire_done_def retire_runner_def
      example_runner_def map_store_def eval_nat_numeral)

text \<open>
  In the example of the retired dependency, after the pass: the snapshot is the map
  object 1, with the entry of the template, which points to event 0.
\<close>

theorem RenderEvents_copies_the_map_only_witness:
  "renderEvents retire_done < next_map (mem retire_done)
   \<and> distinct (map fst (maps (mem retire_done) (renderEvents retire_done)))
   \<and> fst (RenderEvents retire_done) = 1
   \<and> renderEvents (snd (RenderEvents retire_done)) = 0
   \<and> map_of (maps (mem (snd (RenderEvents retire_done))) 1) ''in.tpl'' = Some 0
   \<and> event_of (snd (RenderEvents retire_done)) ''in.tpl'' = Some 0"
proof -
  have 1: "renderEvents retire_done < next_map (mem retire_done)"
    and 2: "distinct (map fst (maps (mem retire_done) (renderEvents retire_done)))"
    and re: "renderEvents retire_done = 0"
    by (simp_all add: retire_done_def retire_runner_def example_runner_def)
  have ev: "event_of retire_done ''in.tpl'' = Some 0"
    by (simp add: event_of_def retire_done_def retire_runner_def example_runner_def)
  have 3: "fst (RenderEvents retire_done) = 1"
    by (simp add: retire_done_RenderEvents)
  have pair: "RenderEvents retire_done
      = (fst (RenderEvents retire_done), snd (RenderEvents retire_done))"
    by simp
  note th = RenderEvents_copies_the_map_only [OF 1 2 pair]
  from th re have 4: "renderEvents (snd (RenderEvents retire_done)) = 0"
    by simp
  from th have "map_of (maps (mem (snd (RenderEvents retire_done))) (fst (RenderEvents retire_done)))
      = event_of retire_done"
    by blast
  with 3 ev have 5: "map_of (maps (mem (snd (RenderEvents retire_done))) 1) ''in.tpl'' = Some 0"
    by simp
  from th have "event_of (snd (RenderEvents retire_done)) = event_of retire_done"
    by blast
  with ev have 6: "event_of (snd (RenderEvents retire_done)) ''in.tpl'' = Some 0"
    by simp
  from 1 2 3 4 5 6 show ?thesis by blast
qed

text \<open>
  C9 as stated fails: in the example of the retired dependency, the snapshot taken
  after the pass (map object 1) has for the template an entry that points to event 0,
  which holds the times 3 and 3. The next render pass renders again, and through the
  same entry of the same snapshot the times are now 6 and 6.
\<close>

theorem later_pass_alters_snapshot_counterexample:
  "fst (RenderEvents retire_done) = 1
   \<and> map_of (maps (mem (snd (RenderEvents retire_done))) 1) ''in.tpl'' = Some 0
   \<and> events (mem (snd (RenderEvents retire_done))) 0
       = \<lparr>LastWouldRender = 3, LastDidRender = 3\<rparr>
   \<and> map_of (maps (mem (result_state (Run retire_env (snd (RenderEvents retire_done))))) 1)
         ''in.tpl'' = Some 0
   \<and> events (mem (result_state (Run retire_env (snd (RenderEvents retire_done))))) 0
       = \<lparr>LastWouldRender = 6, LastDidRender = 6\<rparr>"
  unfolding retire_done_RenderEvents
  by (simp add: Run_def start_pass_def run_template_def render_template_def after_render_def
      markRenderTime_def new_event_def map_store_def templateConfigsFor_def event_of_def
      Let_def Watching_def finish_def diffAndUpdateDeps_def try_send_def spawnChild_def
      retire_done_def retire_defs example_defs)

subsection \<open>Once mode (C6)\<close>

text \<open>
  In once mode a template that has a render event is skipped: the pass goes on as it
  was, with no call made.
\<close>

lemma once_mode_skips_rendered:
  "once (rn p) \<Longrightarrow> event_of (rn p) (ID tmpl) \<noteq> None \<Longrightarrow> run_template env tmpl p = Inr p"
  by (simp add: run_template_def Let_def)

text \<open>
  In once mode, when every template has a render event, the loop does not come to its
  select again.
\<close>

lemma once_mode_leaves:
  assumes "once r" and "allTemplatesRendered (enable_quiescence r)"
  shows "\<exists>x. fst (loop_top env c evs r) = Leave x"
proof -
  have o: "once (enable_quiescence r) = once r"
  proof -
    have "once (fold enable_quiescence_for ts r') = once r'" for ts r'
      by (induction ts arbitrary: r')
        (simp_all add: enable_quiescence_for_def split: option.splits)
    then show ?thesis by (simp add: enable_quiescence_def)
  qed
  have oe: "\<exists>x. once_exit c' evs r' = Leave x" if "once r'" for r' c'
    using that by (auto simp: once_exit_def split: option.splits result.splits)
  show ?thesis
    using assms oe o
    by (auto simp: loop_top_def Let_def Unlock_def push_def
        split: option.splits sum.splits if_splits)
qed

text \<open>
  With no exec command and no child, the exit of once mode is \<^verbatim>\<open>Stop\<close> and return.
\<close>

lemma once_mode_stops:
  assumes "once (enable_quiescence r)" and "allTemplatesRendered (enable_quiescence r)"
    and "cfg_ExecCommand (config (enable_quiescence r)) = ''''"
    and "child (enable_quiescence r) = None"
  shows "fst (loop_top env c evs r) =
     Leave (case Stop (enable_quiescence r) of
              Return u r' \<Rightarrow> Returns r' | Panic pn r' \<Rightarrow> Panics pn r')"
  using assms by (simp add: loop_top_def Let_def once_exit_def split: result.splits)

text \<open>
  With an exec command, when every template has a render event, the top of the loop body
  comes to \<^verbatim>\<open>r.childLock.Unlock()\<close>; the lock is not held for writing (no code of
  the runner locks it), so the program faults there, before the exit of once mode.
\<close>

lemma exec_command_faults:
  assumes "allTemplatesRendered (enable_quiescence r)"
    and "cfg_ExecCommand (config (enable_quiescence r)) \<noteq> ''''"
    and "\<not> childLock (enable_quiescence r)"
  shows "\<exists>pn r'. fst (loop_top env c evs r) = Leave (Panics pn r')"
  using assms
  by (auto simp: loop_top_def Let_def Unlock_def push_def
      split: option.splits sum.splits)

text \<open>
  C6 does not hold of the code where a child is spawned. The example in once mode, with
  the exec command \<^verbatim>\<open>sleep 1\<close>: the data arrives, the pass renders the template,
  the child is spawned, and the program faults at the unlock; the exit of the child, 
  which comes next, is never waited for and no \<^verbatim>\<open>ChildDied\<close> is sent.
\<close>

theorem once_mode_child_wait_faults:
  "\<exists>r'. Start example_env [DataEv (web, ''v1'') [], ChildExitEv 0]
           (example_runner\<lparr>once := True,
              config := example_config\<lparr>cfg_ExecCommand := ''sleep 1''\<rparr>\<rparr>)
         = Panics UnlockOfUnlockedRWMutex r'
       \<and> child r' = Some (Child [''sleep 1'']) \<and> ErrCh r' = [] \<and> \<not> DoneCh r'"
  by (simp add: Start_def storePid_def Run_def start_pass_def run_template_def
      render_template_def after_render_def markRenderTime_def new_event_def map_store_def
      templateConfigsFor_def event_of_def Let_def Watching_def subscribe_def Add_def
      finish_def diffAndUpdateDeps_def try_send_def spawnChild_def
      loop_top_def enable_quiescence_def enable_quiescence_for_def allTemplatesRendered_def
      select_case_def Receive_def Remember_def Unlock_def
      example_defs)

lemma ticks_snoc: "ticks (ts @ [t]) q = tick t (ticks ts q)"
  by (induction ts arbitrary: q) simp_all

subsection \<open>Quiescence (C2)\<close>

lemma ticks_pending_snoc:
  "ticks_pending (ts @ [t]) q =
     (ticks_pending ts q \<and> (case timer (ticks ts q) of None \<Rightarrow> True | Some e \<Rightarrow> t < e))"
  by (induction ts arbitrary: q) simp_all

lemma ticks_expiry:
  assumes "min_d q \<le> max_d q" and "timer q = None"
  shows "ticks_pending (t0 # ts) q \<Longrightarrow>
     timer (ticks (t0 # ts) q) = Some (min (last (t0 # ts) + min_d q) (t0 + max_d q))
   \<and> deadline (ticks (t0 # ts) q) = t0 + max_d q
   \<and> min_d (ticks (t0 # ts) q) = min_d q \<and> max_d (ticks (t0 # ts) q) = max_d q"
proof (induction ts rule: rev_induct)
  case Nil
  then show ?case using assms by (simp add: tick_def)
next
  case (snoc t ts)
  have pend: "ticks_pending (t0 # ts) q"
    and lt: "(case timer (ticks (t0 # ts) q) of None \<Rightarrow> True | Some e \<Rightarrow> t < e)"
    using snoc.prems ticks_pending_snoc [of "t0 # ts" t q] by simp_all
  note ih = snoc.IH [OF pend]
  have eq: "ticks (t0 # ts @ [t]) q = tick t (ticks (t0 # ts) q)"
    using ticks_snoc [of "t0 # ts" t q] by simp
  from ih lt have "t < t0 + max_d q" by simp
  with ih show ?case
    unfolding eq by (simp add: tick_def)
qed

text \<open>
  C2, as the code has it. The first tick of a record (\<open>timer q = None\<close>) arms the timer
  for \<open>min\<close> and sets the deadline to \<open>now + max\<close>. A later tick (\<open>timer q' = Some e\<close>)
  resets the timer to \<open>min\<close> when \<open>now + min < deadline\<close>, strictly; otherwise it
  resets it to expire at the deadline when \<open>deadline - now\<close> is positive; otherwise it
  leaves the timer alone. Hence, when \<open>min \<le> max\<close> and every tick of a window arrives
  before the timer has expired, the timer expires at the earlier of "last tick + min"
  and "first tick + max": never later than \<open>max\<close> after the first tick, and \<open>min\<close> after
  the last tick unless the deadline comes first.
\<close>

theorem quiescence_tick_window:
  assumes "timer q = None" and "min_d q \<le> max_d q" and "ticks_pending (t0 # ts) q"
    and "timer q' = Some e"
  shows "tick t0 q = q\<lparr>timer := Some (t0 + min_d q), deadline := t0 + max_d q\<rparr>
       \<and> tick now q' =
           (if now + min_d q' < deadline q' then q'\<lparr>timer := Some (now + min_d q')\<rparr>
            else if 0 < deadline q' - now then q'\<lparr>timer := Some (deadline q')\<rparr>
            else q')
       \<and> timer (ticks (t0 # ts) q) = Some (min (last (t0 # ts) + min_d q) (t0 + max_d q))"
proof -
  have "tick t0 q = q\<lparr>timer := Some (t0 + min_d q), deadline := t0 + max_d q\<rparr>"
    using assms(1) by (simp add: tick_def)
  moreover have "tick now q' =
           (if now + min_d q' < deadline q' then q'\<lparr>timer := Some (now + min_d q')\<rparr>
            else if 0 < deadline q' - now then q'\<lparr>timer := Some (deadline q')\<rparr>
            else q')"
    using assms(4) by (simp add: tick_def)
  moreover have "timer (ticks (t0 # ts) q) = Some (min (last (t0 # ts) + min_d q) (t0 + max_d q))"
    using ticks_expiry [OF assms(2) assms(1) assms(3)] by blast
  ultimately show ?thesis by blast
qed

text \<open>
  The scenario of the specification: \<open>min = 50\<close>, \<open>max = 200\<close>, ticks at 0, 20, 40 and
  60. The timer expires at 110.
\<close>

theorem quiescence_tick_window_witness:
  "timer (ticks [0, 20, 40, 60] (newQuiescence 50 200 (Template ''t''))) = Some 110
   \<and> tick 20 (tick 0 (newQuiescence 50 200 (Template ''t'')))
       = (tick 0 (newQuiescence 50 200 (Template ''t'')))\<lparr>timer := Some 70\<rparr>"
  using quiescence_tick_window [of "newQuiescence 50 200 (Template ''t'')" 0 "[20, 40, 60]"
      "tick 0 (newQuiescence 50 200 (Template ''t''))" 50 20]
  by (simp add: newQuiescence_def tick_def)

text \<open>
  C2 as stated fails: with \<open>min = 50\<close> and \<open>max = 200\<close>, ticks at 0, 40, 80, 120
  and 160 all find the timer pending, and the timer then expires at 200, which is 40
  after the most recent tick: sooner than \<open>min\<close> after it.
\<close>

theorem quiescence_min_after_last_tick_counterexample:
  "ticks_pending [0, 40, 80, 120, 160] (newQuiescence 50 200 (Template ''t''))
   \<and> timer (ticks [0, 40, 80, 120, 160] (newQuiescence 50 200 (Template ''t''))) = Some 200
   \<and> \<not> (160 + min_d (newQuiescence 50 200 (Template ''t'')) \<le> 200)"
  by (simp add: newQuiescence_def tick_def)

end
